theory Spec2Isabelle
  imports Main "HOL-Library.Word"
begin

unbundle bit_operations_syntax

section \<open>Data model\<close>

text \<open>
  The code buffer of \<^verbatim>\<open>bf_jit64.cpp\<close> is a \<^verbatim>\<open>std::string\<close> used as a growable sequence of
  bytes; it is modelled as a list of 8-bit words. Source programs are strings. A pair of
  iterators \<^verbatim>\<open>(start, end)\<close> into the source denotes the characters between them and is
  modelled as that list of characters.
\<close>

type_synonym byte = "8 word"
type_synonym code = "byte list"

subsection \<open>Instruction templates\<close>

definition START :: code where
  "START = [0x41, 0x54,  0x41, 0x55,  0x41, 0x56,  0x55,  0x53,
            0x49, 0x89, 0xfc,  0x49, 0x89, 0xf5,  0x49, 0x89, 0xd6,
            0x48, 0x89, 0xcd,  0x4c, 0x89, 0xc3]"

definition EXIT :: code where
  "EXIT = [0x5b,  0x5d,  0x41, 0x5e,  0x41, 0x5d,  0x41, 0x5c,  0xc3]"

definition LEFT :: code where
  "LEFT = [0x48, 0x83, 0xeb, 0x01]"

definition RIGHT :: code where
  "RIGHT = [0x48, 0x83, 0xc3, 0x01]"

definition SUBTRACT :: code where
  "SUBTRACT = [0x8a, 0x03,  0x2c, 0x01,  0x88, 0x03]"

definition ADD :: code where
  "ADD = [0x8a, 0x03,  0x04, 0x01,  0x88, 0x03]"

definition READ :: code where
  "READ = [0x48, 0x89, 0xef,  0x41, 0xff, 0xd6,  0x48, 0x83, 0xf8, 0x00]"

definition READ_STORE :: code where
  "READ_STORE = [0x48, 0x89, 0x03]"

definition WRITE :: code where
  "WRITE = [0x4c, 0x89, 0xef,  0x48, 0x0f, 0xb6, 0x33,  0x41, 0xff, 0xd4,
            0x48, 0x83, 0xf8, 0x01]"

definition LOOP_CMP :: code where
  "LOOP_CMP = [0x80, 0x3b, 0x00]"

section \<open>Loop matching\<close>

text \<open>
  \<^verbatim>\<open>find_loop_end(loop_start, string_end, &loop_end)\<close>. The range \<open>r\<close> is the text from
  \<^verbatim>\<open>loop_start\<close> (the opening bracket, offset 0) up to \<^verbatim>\<open>string_end\<close>; the result is the
  offset of \<^verbatim>\<open>loop_end\<close> from \<^verbatim>\<open>loop_start\<close>, or \<open>None\<close> for \<^verbatim>\<open>return false\<close>.
  \<open>find_loop_end_loop\<close> is the \<^verbatim>\<open>for\<close> loop: \<open>level\<close> and \<open>it\<close> are its variables and the
  list holds the characters from \<^verbatim>\<open>it\<close> to \<^verbatim>\<open>string_end\<close>. The C \<^verbatim>\<open>int level\<close> never exceeds
  the number of characters read plus one; it is an integer here.
\<close>

fun find_loop_end_loop :: "int \<Rightarrow> nat \<Rightarrow> string \<Rightarrow> nat option" where
  "find_loop_end_loop level it [] = None"
| "find_loop_end_loop level it (c # cs) =
     (if c = CHR ''['' then find_loop_end_loop (level + 1) (it + 1) cs
      else if c = CHR '']'' then
        (if level - 1 = 0 then Some it
         else find_loop_end_loop (level - 1) (it + 1) cs)
      else find_loop_end_loop level (it + 1) cs)"

definition find_loop_end :: "string \<Rightarrow> nat option" where
  "find_loop_end r = find_loop_end_loop 1 1 (drop 1 r)"

text \<open>
  The nesting depth of the specification: 1 at the opening bracket, plus the number of
  opening brackets and minus the number of closing brackets among the \<open>k\<close> characters that
  follow it.
\<close>

definition depth_from :: "int \<Rightarrow> string \<Rightarrow> nat \<Rightarrow> int" where
  "depth_from level cs k =
     level + int (count_list (take k cs) CHR ''['') - int (count_list (take k cs) CHR '']'')"

definition depth_at :: "string \<Rightarrow> nat \<Rightarrow> int" where
  "depth_at r k = depth_from 1 (drop 1 r) k"

section \<open>Relocations\<close>

text \<open>
  Buffer offsets are held in C \<^verbatim>\<open>int\<close> variables (\<^verbatim>\<open>int loop_start = code->size()\<close>) and
  converted back to \<^verbatim>\<open>size_t\<close> when they are used: \<open>size_to_int\<close> is the conversion of a
  size to a 32-bit \<^verbatim>\<open>int\<close>, \<open>int_to_size\<close> the conversion of an \<^verbatim>\<open>int\<close> to the 64-bit
  \<^verbatim>\<open>size_t\<close>.
\<close>

definition size_to_int :: "nat \<Rightarrow> int" where
  "size_to_int n = sint (word_of_nat n :: 32 word)"

definition int_to_size :: "int \<Rightarrow> nat" where
  "int_to_size i = unat (word_of_int i :: 64 word)"

text \<open>
  \<^verbatim>\<open>uint32_t relative_address = offset - (code->size() + 4)\<close>: the subtraction is done in
  \<^verbatim>\<open>size_t\<close> (64 bits, wrapping) and the result is cut to 32 bits.
\<close>

definition relative_address :: "int \<Rightarrow> nat \<Rightarrow> 32 word" where
  "relative_address offset code_size =
     ucast ((word_of_int offset :: 64 word) - (word_of_nat code_size + 4))"

text \<open>
  \<^verbatim>\<open>string((char *) &relative_address, 4)\<close>: the four bytes of the value as they lie in
  memory on x86-64, lowest byte first.
\<close>

definition bytes_of :: "32 word \<Rightarrow> code" where
  "bytes_of w = [ucast w, ucast (drop_bit 8 w), ucast (drop_bit 16 w), ucast (drop_bit 24 w)]"

definition add_jne_to_exit :: "int \<Rightarrow> code \<Rightarrow> code" where
  "add_jne_to_exit exit_offset code =
     (let code = code @ [0x0f, 0x85];
          relative_address = relative_address exit_offset (length code)
      in code @ bytes_of relative_address)"

definition add_jl_to_exit :: "int \<Rightarrow> code \<Rightarrow> code" where
  "add_jl_to_exit exit_offset code =
     (let code = code @ [0x0f, 0x8c];
          relative_address = relative_address exit_offset (length code)
      in code @ bytes_of relative_address)"

definition add_jmp_to_offset :: "int \<Rightarrow> code \<Rightarrow> code" where
  "add_jmp_to_offset offset code =
     (let code = code @ [0xe9];
          relative_address = relative_address offset (length code)
      in code @ bytes_of relative_address)"

definition add_jmp_to_exit :: "int \<Rightarrow> code \<Rightarrow> code" where
  "add_jmp_to_exit exit_offset code = add_jmp_to_offset exit_offset code"

section \<open>Code generation\<close>

text \<open>
  A build stops in one of two ways: \<^verbatim>\<open>generate_sequence_code\<close> returns \<^verbatim>\<open>false\<close> after
  printing the text that starts at the unmatched bracket, or \<^verbatim>\<open>std::string::replace\<close>
  throws \<^verbatim>\<open>std::out_of_range\<close> because its position lies beyond the end of the buffer.
\<close>

datatype gen_error = LoopEndNotFound string | OutOfRange

text \<open>\<^verbatim>\<open>code->replace(pos, len, str)\<close>\<close>

definition string_replace :: "nat \<Rightarrow> nat \<Rightarrow> code \<Rightarrow> code \<Rightarrow> gen_error + code" where
  "string_replace pos len str code =
     (if pos > length code then Inl OutOfRange
      else Inr (take pos code @ str @ drop (pos + len) code))"

definition generate_left_code :: "code \<Rightarrow> code" where
  "generate_left_code code = code @ LEFT"

definition generate_right_code :: "code \<Rightarrow> code" where
  "generate_right_code code = code @ RIGHT"

definition generate_subtract_code :: "code \<Rightarrow> code" where
  "generate_subtract_code code = code @ SUBTRACT"

definition generate_add_code :: "code \<Rightarrow> code" where
  "generate_add_code code = code @ ADD"

definition generate_read_code :: "int \<Rightarrow> code \<Rightarrow> code" where
  "generate_read_code exit_offset code =
     (let code = code @ READ;
          code = add_jl_to_exit exit_offset code
      in code @ READ_STORE)"

definition generate_write_code :: "int \<Rightarrow> code \<Rightarrow> code" where
  "generate_write_code exit_offset code =
     (let code = code @ WRITE
      in add_jne_to_exit exit_offset code)"

text \<open>
  The cases of the \<^verbatim>\<open>switch\<close> in \<^verbatim>\<open>generate_sequence_code\<close> that only append to the buffer
  and go on with the next character; a character with no case appends nothing.
\<close>

definition generate_simple_code :: "int \<Rightarrow> char \<Rightarrow> code \<Rightarrow> code" where
  "generate_simple_code exit_offset c code =
     (if c = CHR ''<'' then generate_left_code code
      else if c = CHR ''>'' then generate_right_code code
      else if c = CHR ''-'' then generate_subtract_code code
      else if c = CHR ''+'' then generate_add_code code
      else if c = CHR '','' then generate_read_code exit_offset code
      else if c = CHR ''.'' then generate_write_code exit_offset code
      else code)"

lemma find_loop_end_loop_bound:
  "find_loop_end_loop level it cs = Some e \<Longrightarrow> it \<le> e \<and> e < it + length cs"
proof (induction cs arbitrary: level it)
  case Nil
  then show ?case by simp
next
  case (Cons c cs)
  then show ?case by (fastforce split: if_splits)
qed

lemma find_loop_end_bound: "find_loop_end r = Some e \<Longrightarrow> 1 \<le> e \<and> e < length r"
  unfolding find_loop_end_def by (drule find_loop_end_loop_bound) auto

text \<open>
  \<^verbatim>\<open>generate_sequence_code(start, end, code)\<close> takes the characters from \<^verbatim>\<open>start\<close> to
  \<^verbatim>\<open>end\<close>; \<^verbatim>\<open>generate_loop_code(start, end, code)\<close> takes the characters from the opening
  bracket at \<^verbatim>\<open>start\<close> up to, and without, the closing bracket at \<^verbatim>\<open>end\<close>. The member
  \<^verbatim>\<open>exit_offset_\<close> is passed as the first argument.
\<close>

function generate_sequence_code :: "int \<Rightarrow> string \<Rightarrow> code \<Rightarrow> gen_error + code"
  and generate_loop_code :: "int \<Rightarrow> string \<Rightarrow> code \<Rightarrow> gen_error + code" where
  "generate_sequence_code exit_offset [] code = Inr code"
| "generate_sequence_code exit_offset (c # cs) code =
     (if c = CHR ''['' then
        (case find_loop_end (c # cs) of
           None \<Rightarrow> Inl (LoopEndNotFound (c # cs))
         | Some loop_end \<Rightarrow>
             (case generate_loop_code exit_offset (take loop_end (c # cs)) code of
                Inl e \<Rightarrow> Inl e
              | Inr code \<Rightarrow> generate_sequence_code exit_offset (drop (loop_end + 1) (c # cs)) code))
      else generate_sequence_code exit_offset cs (generate_simple_code exit_offset c code))"
| "generate_loop_code exit_offset r code =
     (let loop_start = size_to_int (length code);
          code = code @ LOOP_CMP;
          jump_start = size_to_int (length code);
          code = code @ [0xde, 0xad, 0xbe, 0xef, 0xde, 0xad]
      in case generate_sequence_code exit_offset (drop 1 r) code of
           Inl e \<Rightarrow> Inl e
         | Inr code \<Rightarrow>
             (let code = add_jmp_to_offset loop_start code;
                  jump_to_end = [0x0f, 0x84];
                  relative_end_of_loop = (ucast ((word_of_nat (length code) :: 64 word) -
                      (word_of_int jump_start + word_of_nat (length jump_to_end) + 4)) :: 32 word);
                  jump_to_end = jump_to_end @ bytes_of relative_end_of_loop
              in string_replace (int_to_size jump_start) (length jump_to_end) jump_to_end code))"
  by pat_completeness auto
termination
proof (relation "measure (\<lambda>x. case x of Inl (_, s, _) \<Rightarrow> 2 * length s
                                      | Inr (_, r, _) \<Rightarrow> 2 * length r + 1)")
  show "wf (measure (\<lambda>x. case x of Inl (_, s, _) \<Rightarrow> 2 * length s
                                   | Inr (_, r, _) \<Rightarrow> 2 * length r + 1))"
    by simp
qed (auto dest: find_loop_end_bound)

section \<open>Building a program\<close>

text \<open>
  The object: \<^verbatim>\<open>executable_\<close> is a pointer (0 is \<^verbatim>\<open>NULL\<close>), \<^verbatim>\<open>exit_offset_\<close> an offset into
  the buffer. The constructor sets \<^verbatim>\<open>executable_\<close> to \<^verbatim>\<open>NULL\<close> and leaves \<^verbatim>\<open>exit_offset_\<close>
  as it finds it. The fields are written without the trailing underscore of the C++ names.
  The class is declared in \<^verbatim>\<open>bf_jit.h\<close>; the types of the two members are taken from their
  use in \<^verbatim>\<open>bf_jit64.cpp\<close>: \<^verbatim>\<open>executable_\<close> receives the result of \<^verbatim>\<open>mmap\<close>, and \<^verbatim>\<open>exit_offset_\<close>
  is an \<^verbatim>\<open>int\<close> as the other offsets are (\<open>init\<close> always sets it to 25).
\<close>

record BrainfuckProgram =
  executable :: "64 word"
  exit_offset :: int

definition BrainfuckProgram_new :: "int \<Rightarrow> BrainfuckProgram" where
  "BrainfuckProgram_new uninitialised = \<lparr>executable = 0, exit_offset = uninitialised\<rparr>"

text \<open>
  The operating system as \<^verbatim>\<open>init\<close> sees it: the page size \<^verbatim>\<open>sysconf(_SC_PAGESIZE)\<close>, the
  pointer \<^verbatim>\<open>mmap\<close> returns and the value \<^verbatim>\<open>mprotect\<close> returns. \<^verbatim>\<open>mmap\<close> reports failure by
  returning \<^verbatim>\<open>MAP_FAILED\<close>, which is \<^verbatim>\<open>(void *) -1\<close>. The page size of a host is positive;
  the properties that depend on the division by it say so.
\<close>

record host =
  pagesize :: nat
  mmap_result :: "64 word"
  mprotect_result :: int

definition MAP_FAILED :: "64 word" where
  "MAP_FAILED = - 1"

datatype diagnostic =
  UnableToFindLoopEnd string
  | ErrorMakingMemoryExecutable
  | MprotectFailed

datatype effect =
  Mmap nat
  | Memmove "64 word" code
  | Mprotect "64 word" nat

text \<open>
  How a call of \<^verbatim>\<open>init\<close> ends: it returns a \<^verbatim>\<open>bool\<close>, it leaves by the exception of
  \<^verbatim>\<open>replace\<close>, or the process faults in \<^verbatim>\<open>memmove\<close>, which writes to the address
  \<^verbatim>\<open>MAP_FAILED\<close> where nothing is mapped.
\<close>

datatype outcome = Returned bool | Threw | Faulted

record init_result =
  returned :: outcome
  program :: BrainfuckProgram
  diagnostics :: "diagnostic list"
  effects :: "effect list"

definition init :: "host \<Rightarrow> BrainfuckProgram \<Rightarrow> string \<Rightarrow> init_result" where
  "init h this source =
     (let code = START;
          code = code @ [0xeb];
          code = code @ [word_of_nat (length EXIT)];
          this = this\<lparr>exit_offset := size_to_int (length code)\<rparr>;
          code = code @ EXIT
      in case generate_sequence_code (exit_offset this) source code of
           Inl (LoopEndNotFound text) \<Rightarrow>
             \<lparr>returned = Returned False, program = this,
              diagnostics = [UnableToFindLoopEnd text], effects = []\<rparr>
         | Inl OutOfRange \<Rightarrow>
             \<lparr>returned = Threw, program = this, diagnostics = [], effects = []\<rparr>
         | Inr code \<Rightarrow>
             (let code = add_jmp_to_exit (exit_offset this) code;
                  required_memory =
                    size_to_int ((length code div pagesize h + 1) * pagesize h);
                  this = this\<lparr>executable := mmap_result h\<rparr>;
                  mapped = [Mmap (int_to_size required_memory)]
              in if executable this = 0 then
                   \<lparr>returned = Returned False, program = this,
                    diagnostics = [ErrorMakingMemoryExecutable], effects = mapped\<rparr>
                 else if executable this = MAP_FAILED then
                   \<lparr>returned = Faulted, program = this, diagnostics = [], effects = mapped\<rparr>
                 else
                   (let copied = mapped @ [Memmove (executable this) code];
                        protected = copied @
                          [Mprotect (executable this) (int_to_size required_memory)]
                    in if mprotect_result h \<noteq> 0 then
                         \<lparr>returned = Returned False, program = this,
                          diagnostics = [MprotectFailed], effects = protected\<rparr>
                       else
                         \<lparr>returned = Returned True, program = this,
                          diagnostics = [], effects = protected\<rparr>)))"

section \<open>Notions used by the properties\<close>

text \<open>The six bytes that \<^verbatim>\<open>generate_loop_code\<close> reserves for the skip branch.\<close>

definition placeholder :: code where
  "placeholder = [0xde, 0xad, 0xbe, 0xef, 0xde, 0xad]"

text \<open>
  A generation step started on the buffer \<open>code\<close> behaves well when it does not throw and,
  where it succeeds, has only appended to the buffer, at most \<open>bound\<close> bytes.
\<close>

definition ok_from :: "code \<Rightarrow> nat \<Rightarrow> gen_error + code \<Rightarrow> bool" where
  "ok_from code bound res \<longleftrightarrow>
     res \<noteq> Inl OutOfRange \<and>
     (\<forall>code'. res = Inr code' \<longrightarrow> (\<exists>body. code' = code @ body \<and> length body \<le> bound))"

text \<open>
  The 32-bit value that the four bytes at offset \<open>p\<close> of a buffer hold when they are read
  lowest byte first, as the processor reads the displacement of a relative branch.
\<close>

definition le32 :: "code \<Rightarrow> nat \<Rightarrow> 32 word" where
  "le32 c p = ucast (c ! p) OR push_bit 8 (ucast (c ! (p + 1))) OR
     push_bit 16 (ucast (c ! (p + 2))) OR push_bit 24 (ucast (c ! (p + 3)))"

text \<open>
  Matching of brackets over a whole text, read from left to right: \<open>n\<close> is the number of
  opening brackets that are still waiting for their closing bracket. A closing bracket
  closes the innermost waiting one; when none is waiting it closes nothing. The result is
  the number of opening brackets left without a matching closing bracket.
\<close>

fun open_brackets :: "nat \<Rightarrow> string \<Rightarrow> nat" where
  "open_brackets n [] = n"
| "open_brackets n (c # cs) =
     (if c = CHR ''['' then open_brackets (n + 1) cs
      else if c = CHR '']'' then open_brackets (n - 1) cs
      else open_brackets n cs)"

section \<open>The processor on the generated code\<close>

text \<open>
  The buffer holds x86-64 machine code. The model below covers the instructions that the
  templates of \<^verbatim>\<open>bf_jit64.cpp\<close> and its patcher emit, decoded from the bytes of the buffer
  as the comments beside the templates give them.
\<close>

datatype reg = RAX | RBX | RCX | RDX | RSI | RDI | RBP | R8 | R12 | R13 | R14

datatype instr =
  Push reg
  | Pop reg
  | Ret
  | MovReg reg reg
  | AddImm reg byte
  | SubImm reg byte
  | CmpImm reg byte
  | LoadAl
  | StoreAl
  | AddAl byte
  | SubAl byte
  | StoreRax
  | LoadRsiByte
  | CmpbMem byte
  | CallReg reg
  | JmpRel int
  | Je int
  | Jne int
  | Jl int

text \<open>
  One-byte instructions: \<^verbatim>\<open>push %rbp\<close>, \<^verbatim>\<open>push %rbx\<close>, \<^verbatim>\<open>pop %rbx\<close>, \<^verbatim>\<open>pop %rbp\<close>, \<^verbatim>\<open>retq\<close>.
\<close>

definition decode1 :: "byte \<Rightarrow> (instr \<times> nat) option" where
  "decode1 b0 =
     (if b0 = 0x55 then Some (Push RBP, 1)
      else if b0 = 0x53 then Some (Push RBX, 1)
      else if b0 = 0x5b then Some (Pop RBX, 1)
      else if b0 = 0x5d then Some (Pop RBP, 1)
      else if b0 = 0xc3 then Some (Ret, 1)
      else None)"

text \<open>
  Two bytes: pushes and pops of \<^verbatim>\<open>%r12\<close> to \<^verbatim>\<open>%r14\<close>, \<^verbatim>\<open>jmp rel8\<close>, \<^verbatim>\<open>mov (%rbx),%al\<close>,
  \<^verbatim>\<open>mov %al,(%rbx)\<close>, \<^verbatim>\<open>sub $ib,%al\<close>, \<^verbatim>\<open>add $ib,%al\<close>.
\<close>

definition decode2 :: "byte \<Rightarrow> byte \<Rightarrow> (instr \<times> nat) option" where
  "decode2 b0 b1 =
     (if b0 = 0x41 \<and> b1 = 0x54 then Some (Push R12, 2)
      else if b0 = 0x41 \<and> b1 = 0x55 then Some (Push R13, 2)
      else if b0 = 0x41 \<and> b1 = 0x56 then Some (Push R14, 2)
      else if b0 = 0x41 \<and> b1 = 0x5e then Some (Pop R14, 2)
      else if b0 = 0x41 \<and> b1 = 0x5d then Some (Pop R13, 2)
      else if b0 = 0x41 \<and> b1 = 0x5c then Some (Pop R12, 2)
      else if b0 = 0xeb then Some (JmpRel (sint b1), 2)
      else if b0 = 0x8a \<and> b1 = 0x03 then Some (LoadAl, 2)
      else if b0 = 0x88 \<and> b1 = 0x03 then Some (StoreAl, 2)
      else if b0 = 0x2c then Some (SubAl b1, 2)
      else if b0 = 0x04 then Some (AddAl b1, 2)
      else None)"

text \<open>
  Three bytes: the register moves of the prologue and of the calls, \<^verbatim>\<open>callq *%r14\<close>,
  \<^verbatim>\<open>callq *%r12\<close>, \<^verbatim>\<open>mov %rax,(%rbx)\<close>, \<^verbatim>\<open>cmpb $ib,(%rbx)\<close>.
\<close>

definition decode3 :: "byte \<Rightarrow> byte \<Rightarrow> byte \<Rightarrow> (instr \<times> nat) option" where
  "decode3 b0 b1 b2 =
     (if b0 = 0x49 \<and> b1 = 0x89 \<and> b2 = 0xfc then Some (MovReg RDI R12, 3)
      else if b0 = 0x49 \<and> b1 = 0x89 \<and> b2 = 0xf5 then Some (MovReg RSI R13, 3)
      else if b0 = 0x49 \<and> b1 = 0x89 \<and> b2 = 0xd6 then Some (MovReg RDX R14, 3)
      else if b0 = 0x48 \<and> b1 = 0x89 \<and> b2 = 0xcd then Some (MovReg RCX RBP, 3)
      else if b0 = 0x4c \<and> b1 = 0x89 \<and> b2 = 0xc3 then Some (MovReg R8 RBX, 3)
      else if b0 = 0x48 \<and> b1 = 0x89 \<and> b2 = 0xef then Some (MovReg RBP RDI, 3)
      else if b0 = 0x4c \<and> b1 = 0x89 \<and> b2 = 0xef then Some (MovReg R13 RDI, 3)
      else if b0 = 0x41 \<and> b1 = 0xff \<and> b2 = 0xd6 then Some (CallReg R14, 3)
      else if b0 = 0x41 \<and> b1 = 0xff \<and> b2 = 0xd4 then Some (CallReg R12, 3)
      else if b0 = 0x48 \<and> b1 = 0x89 \<and> b2 = 0x03 then Some (StoreRax, 3)
      else if b0 = 0x80 \<and> b1 = 0x3b then Some (CmpbMem b2, 3)
      else None)"

text \<open>
  Four bytes: \<^verbatim>\<open>sub $ib,%rbx\<close>, \<^verbatim>\<open>add $ib,%rbx\<close>, \<^verbatim>\<open>cmp $ib,%rax\<close>, \<^verbatim>\<open>movzbq (%rbx),%rsi\<close>.
\<close>

definition decode4 :: "byte \<Rightarrow> byte \<Rightarrow> byte \<Rightarrow> byte \<Rightarrow> (instr \<times> nat) option" where
  "decode4 b0 b1 b2 b3 =
     (if b0 = 0x48 \<and> b1 = 0x83 \<and> b2 = 0xeb then Some (SubImm RBX b3, 4)
      else if b0 = 0x48 \<and> b1 = 0x83 \<and> b2 = 0xc3 then Some (AddImm RBX b3, 4)
      else if b0 = 0x48 \<and> b1 = 0x83 \<and> b2 = 0xf8 then Some (CmpImm RAX b3, 4)
      else if b0 = 0x48 \<and> b1 = 0x0f \<and> b2 = 0xb6 \<and> b3 = 0x33 then Some (LoadRsiByte, 4)
      else None)"

text \<open>Five bytes: \<^verbatim>\<open>jmp rel32\<close>. Six bytes: \<^verbatim>\<open>je rel32\<close>, \<^verbatim>\<open>jne rel32\<close>, \<^verbatim>\<open>jl rel32\<close>.\<close>

definition decode5 :: "code \<Rightarrow> (instr \<times> nat) option" where
  "decode5 bs = (if bs ! 0 = 0xe9 then Some (JmpRel (sint (le32 bs 1)), 5) else None)"

definition decode6 :: "code \<Rightarrow> (instr \<times> nat) option" where
  "decode6 bs =
     (if bs ! 0 = 0x0f \<and> bs ! 1 = 0x84 then Some (Je (sint (le32 bs 2)), 6)
      else if bs ! 0 = 0x0f \<and> bs ! 1 = 0x85 then Some (Jne (sint (le32 bs 2)), 6)
      else if bs ! 0 = 0x0f \<and> bs ! 1 = 0x8c then Some (Jl (sint (le32 bs 2)), 6)
      else None)"

text \<open>
  The instruction that starts a sequence of bytes, with its length; \<open>None\<close> when the
  bytes start no instruction of the model.
\<close>

definition orelse :: "'a option \<Rightarrow> 'a option \<Rightarrow> 'a option" where
  "orelse x y = (case x of Some v \<Rightarrow> Some v | None \<Rightarrow> y)"

definition decode_bytes :: "code \<Rightarrow> (instr \<times> nat) option" where
  "decode_bytes bs =
     orelse (case bs of b0 # _ \<Rightarrow> decode1 b0 | _ \<Rightarrow> None)
    (orelse (case bs of b0 # b1 # _ \<Rightarrow> decode2 b0 b1 | _ \<Rightarrow> None)
    (orelse (case bs of b0 # b1 # b2 # _ \<Rightarrow> decode3 b0 b1 b2 | _ \<Rightarrow> None)
    (orelse (case bs of b0 # b1 # b2 # b3 # _ \<Rightarrow> decode4 b0 b1 b2 b3 | _ \<Rightarrow> None)
    (orelse (if 5 \<le> length bs then decode5 bs else None)
            (if 6 \<le> length bs then decode6 bs else None)))))"

definition decode :: "code \<Rightarrow> nat \<Rightarrow> (instr \<times> nat) option" where
  "decode code p = decode_bytes (drop p code)"

text \<open>
  The state of a run. \<open>pc\<close> is the offset of the next instruction from the start of the
  region; \<open>zf\<close> is the zero flag and \<open>lt\<close> the condition "sign flag differs from overflow
  flag" that \<^verbatim>\<open>jl\<close> tests; \<open>stack\<close> holds what the code itself has pushed (the return
  address lies below); \<open>mem\<close> is the memory of the process, which holds the tape; \<open>io\<close> is
  the state of the host that the capabilities work on.
\<close>

record 'io machine =
  pc :: nat
  regs :: "reg \<Rightarrow> 64 word"
  zf :: bool
  lt :: bool
  stack :: "64 word list"
  mem :: "64 word \<Rightarrow> byte"
  io :: 'io

text \<open>
  The capabilities: the addresses of the two functions and what a call of each does. A
  call returns the value it leaves in \<^verbatim>\<open>%rax\<close> and the new state of the host; it keeps
  the callee-saved registers and does not touch the tape. The write function returns a
  \<^verbatim>\<open>bool\<close>, which is the lowest byte of \<^verbatim>\<open>%rax\<close>; the read function returns an \<^verbatim>\<open>int\<close>. The
  other caller-saved registers are left as they are: the code loads the arguments anew
  before every call and reads none of them after it.
\<close>

record 'io caps =
  write_fn :: "64 word"
  read_fn :: "64 word"
  do_write :: "'io \<Rightarrow> 64 word \<Rightarrow> byte \<Rightarrow> 64 word \<times> 'io"
  do_read :: "'io \<Rightarrow> 64 word \<Rightarrow> 64 word \<times> 'io"

datatype 'io step = Next "'io machine" | Done "'io machine" | Crash

definition set_reg :: "reg \<Rightarrow> 64 word \<Rightarrow> 'io machine \<Rightarrow> 'io machine" where
  "set_reg r v m = m\<lparr>regs := (regs m)(r := v)\<rparr>"

definition set_al :: "byte \<Rightarrow> 'io machine \<Rightarrow> 'io machine" where
  "set_al v m = set_reg RAX ((regs m RAX AND NOT 0xff) OR ucast v) m"

definition jump :: "nat \<Rightarrow> int \<Rightarrow> 'io machine \<Rightarrow> 'io step" where
  "jump next d m =
     (if int next + d < 0 then Crash else Next (m\<lparr>pc := nat (int next + d)\<rparr>))"

definition store_rax :: "'io machine \<Rightarrow> 64 word \<Rightarrow> byte" where
  "store_rax m =
     (\<lambda>a. if a - regs m RBX = 0 then ucast (regs m RAX)
          else if a - regs m RBX = 1 then ucast (drop_bit 8 (regs m RAX))
          else if a - regs m RBX = 2 then ucast (drop_bit 16 (regs m RAX))
          else if a - regs m RBX = 3 then ucast (drop_bit 24 (regs m RAX))
          else if a - regs m RBX = 4 then ucast (drop_bit 32 (regs m RAX))
          else if a - regs m RBX = 5 then ucast (drop_bit 40 (regs m RAX))
          else if a - regs m RBX = 6 then ucast (drop_bit 48 (regs m RAX))
          else if a - regs m RBX = 7 then ucast (drop_bit 56 (regs m RAX))
          else mem m a)"

definition exec :: "'io caps \<Rightarrow> instr \<Rightarrow> nat \<Rightarrow> 'io machine \<Rightarrow> 'io step" where
  "exec caps i next m =
     (case i of
        Push r \<Rightarrow> Next (m\<lparr>pc := next, stack := regs m r # stack m\<rparr>)
      | Pop r \<Rightarrow>
          (case stack m of
             [] \<Rightarrow> Crash
           | v # s \<Rightarrow> Next (set_reg r v (m\<lparr>pc := next, stack := s\<rparr>)))
      | Ret \<Rightarrow> (if stack m = [] then Done m else Crash)
      | MovReg s d \<Rightarrow> Next (set_reg d (regs m s) (m\<lparr>pc := next\<rparr>))
      | AddImm r b \<Rightarrow>
          Next (set_reg r (regs m r + scast b)
            (m\<lparr>pc := next, zf := (regs m r + scast b = 0),
               lt := (sint (regs m r) + sint b < 0)\<rparr>))
      | SubImm r b \<Rightarrow>
          Next (set_reg r (regs m r - scast b)
            (m\<lparr>pc := next, zf := (regs m r = scast b),
               lt := (sint (regs m r) < sint b)\<rparr>))
      | CmpImm r b \<Rightarrow>
          Next (m\<lparr>pc := next, zf := (regs m r = scast b), lt := (sint (regs m r) < sint b)\<rparr>)
      | LoadAl \<Rightarrow> Next (set_al (mem m (regs m RBX)) (m\<lparr>pc := next\<rparr>))
      | StoreAl \<Rightarrow> Next (m\<lparr>pc := next, mem := (mem m)(regs m RBX := ucast (regs m RAX))\<rparr>)
      | AddAl b \<Rightarrow>
          Next (set_al (ucast (regs m RAX) + b)
            (m\<lparr>pc := next, zf := ((ucast (regs m RAX) :: byte) + b = 0),
               lt := (sint (ucast (regs m RAX) :: byte) + sint b < 0)\<rparr>))
      | SubAl b \<Rightarrow>
          Next (set_al (ucast (regs m RAX) - b)
            (m\<lparr>pc := next, zf := ((ucast (regs m RAX) :: byte) = b),
               lt := (sint (ucast (regs m RAX) :: byte) < sint b)\<rparr>))
      | StoreRax \<Rightarrow> Next (m\<lparr>pc := next, mem := store_rax m\<rparr>)
      | LoadRsiByte \<Rightarrow> Next (set_reg RSI (ucast (mem m (regs m RBX))) (m\<lparr>pc := next\<rparr>))
      | CmpbMem b \<Rightarrow>
          Next (m\<lparr>pc := next, zf := (mem m (regs m RBX) = b),
                 lt := (sint (mem m (regs m RBX)) < sint b)\<rparr>)
      | CallReg r \<Rightarrow>
          (if regs m r = write_fn caps then
             (case do_write caps (io m) (regs m RDI) (ucast (regs m RSI)) of
                (res, io') \<Rightarrow> Next (set_reg RAX res (m\<lparr>pc := next, io := io'\<rparr>)))
           else if regs m r = read_fn caps then
             (case do_read caps (io m) (regs m RDI) of
                (res, io') \<Rightarrow> Next (set_reg RAX res (m\<lparr>pc := next, io := io'\<rparr>)))
           else Crash)
      | JmpRel d \<Rightarrow> jump next d m
      | Je d \<Rightarrow> (if zf m then jump next d m else Next (m\<lparr>pc := next\<rparr>))
      | Jne d \<Rightarrow> (if \<not> zf m then jump next d m else Next (m\<lparr>pc := next\<rparr>))
      | Jl d \<Rightarrow> (if lt m then jump next d m else Next (m\<lparr>pc := next\<rparr>)))"

definition step :: "'io caps \<Rightarrow> code \<Rightarrow> 'io machine \<Rightarrow> 'io step" where
  "step caps code m =
     (case decode code (pc m) of
        None \<Rightarrow> Crash
      | Some (i, n) \<Rightarrow> exec caps i (pc m + n) m)"

text \<open>At most \<open>n\<close> instructions: \<open>Next\<close> when the code has not returned by then.\<close>

fun steps :: "nat \<Rightarrow> 'io caps \<Rightarrow> code \<Rightarrow> 'io machine \<Rightarrow> 'io step" where
  "steps 0 caps code m = Next m"
| "steps (Suc n) caps code m =
     (case step caps code m of
        Next m' \<Rightarrow> steps n caps code m'
      | Done m' \<Rightarrow> Done m'
      | Crash \<Rightarrow> Crash)"

text \<open>
  \<^verbatim>\<open>BrainfuckProgram::run(memory)\<close> calls the region with the write function, its
  context, the read function, its context and the tape, in \<^verbatim>\<open>%rdi\<close>, \<^verbatim>\<open>%rsi\<close>, \<^verbatim>\<open>%rdx\<close>,
  \<^verbatim>\<open>%rcx\<close> and \<^verbatim>\<open>%r8\<close>; both contexts are \<^verbatim>\<open>NULL\<close>. The other registers hold what the
  caller left in them.
\<close>

definition entry :: "'io caps \<Rightarrow> (reg \<Rightarrow> 64 word) \<Rightarrow> 64 word \<Rightarrow> (64 word \<Rightarrow> byte) \<Rightarrow> 'io
    \<Rightarrow> 'io machine" where
  "entry caps callers memory tape host_io =
     \<lparr>pc = 0,
      regs = callers(RDI := write_fn caps, RSI := 0, RDX := read_fn caps, RCX := 0,
                     R8 := memory),
      zf = False, lt = False, stack = [], mem = tape, io = host_io\<rparr>"

text \<open>
  The default capabilities \<^verbatim>\<open>bf_write\<close> and \<^verbatim>\<open>bf_read\<close> on standard output and standard
  input. The host state is the input still to be read, the output written so far, and
  whether \<^verbatim>\<open>putchar\<close> succeeds.
\<close>

record stdio =
  stdin :: "byte list"
  stdout :: "byte list"
  putchar_ok :: bool

definition bf_write :: "stdio \<Rightarrow> 64 word \<Rightarrow> byte \<Rightarrow> 64 word \<times> stdio" where
  "bf_write s ctx c =
     (if putchar_ok s then (1, s\<lparr>stdout := stdout s @ [c]\<rparr>) else (0, s))"

definition bf_read :: "stdio \<Rightarrow> 64 word \<Rightarrow> 64 word \<times> stdio" where
  "bf_read s ctx =
     (case stdin s of
        [] \<Rightarrow> (0, s)
      | c # cs \<Rightarrow> (ucast c, s\<lparr>stdin := cs\<rparr>))"

definition default_caps :: "stdio caps" where
  "default_caps = \<lparr>write_fn = 0x401000, read_fn = 0x402000, do_write = bf_write, do_read = bf_read\<rparr>"

text \<open>The bytes that a call of \<open>init\<close> has copied into the region, if it has.\<close>

definition loaded_code :: "init_result \<Rightarrow> code option" where
  "loaded_code r =
     (case effects r of
        [Mmap n, Memmove p code, Mprotect q k] \<Rightarrow> Some code
      | _ \<Rightarrow> None)"

section \<open>Layout of the generated code\<close>

text \<open>
  The pieces of machine code that the generator puts into the buffer, one for each source
  character that emits code: the four fixed templates, the read and the write with their
  branch to the exit, the head of a loop (zero test and skip branch) and the jump back at
  the end of a loop. The 32-bit word is the displacement of the piece's branch.
\<close>

datatype frag =
  FLeft | FRight | FSub | FAdd
  | FRead "32 word" | FWrite "32 word" | FLoop "32 word" | FJmp "32 word"

fun frag_bytes :: "frag \<Rightarrow> code" where
  "frag_bytes FLeft = LEFT"
| "frag_bytes FRight = RIGHT"
| "frag_bytes FSub = SUBTRACT"
| "frag_bytes FAdd = ADD"
| "frag_bytes (FRead w) = READ @ [0x0f, 0x8c] @ bytes_of w @ READ_STORE"
| "frag_bytes (FWrite w) = WRITE @ [0x0f, 0x85] @ bytes_of w"
| "frag_bytes (FLoop w) = LOOP_CMP @ [0x0f, 0x84] @ bytes_of w"
| "frag_bytes (FJmp w) = [0xe9] @ bytes_of w"

definition frags_bytes :: "frag list \<Rightarrow> code" where
  "frags_bytes fs = concat (map frag_bytes fs)"

text \<open>
  A piece at offset \<open>off\<close> is in order when its branch leads to the exit at offset 25 (read
  and write) or to one of the offsets \<open>B\<close> (loop head and jump back).
\<close>

fun frag_ok :: "nat set \<Rightarrow> nat \<Rightarrow> frag \<Rightarrow> bool" where
  "frag_ok B off (FRead w) = (int (off + 16) + sint w = 25)"
| "frag_ok B off (FWrite w) = (int (off + 20) + sint w = 25)"
| "frag_ok B off (FLoop w) = (\<exists>t\<in>B. int (off + 9) + sint w = int t)"
| "frag_ok B off (FJmp w) = (\<exists>t\<in>B. int (off + 5) + sint w = int t)"
| "frag_ok B off f = True"

fun frags_ok :: "nat set \<Rightarrow> nat \<Rightarrow> frag list \<Rightarrow> bool" where
  "frags_ok B off [] = True"
| "frags_ok B off (f # fs) = (frag_ok B off f \<and> frags_ok B (off + length (frag_bytes f)) fs)"

text \<open>The offsets at which the pieces of a list start, and the offset at which it ends.\<close>

fun bounds :: "nat \<Rightarrow> frag list \<Rightarrow> nat set" where
  "bounds off [] = {off}"
| "bounds off (f # fs) = insert off (bounds (off + length (frag_bytes f)) fs)"

definition laid_out :: "code \<Rightarrow> gen_error + code \<Rightarrow> bool" where
  "laid_out code res \<longleftrightarrow>
     (\<forall>code'. res = Inr code' \<longrightarrow>
        (\<exists>fs. code' = code @ frags_bytes fs \<and>
              frags_ok (bounds (length code) fs) (length code) fs))"

text \<open>The offsets, inside a piece, at which its instructions start.\<close>

fun frag_starts :: "frag \<Rightarrow> nat list" where
  "frag_starts FLeft = [0]"
| "frag_starts FRight = [0]"
| "frag_starts FSub = [0, 2, 4]"
| "frag_starts FAdd = [0, 2, 4]"
| "frag_starts (FRead w) = [0, 3, 6, 10, 16]"
| "frag_starts (FWrite w) = [0, 3, 7, 10, 14]"
| "frag_starts (FLoop w) = [0, 3]"
| "frag_starts (FJmp w) = [0]"

text \<open>The piece \<open>f\<close> lies at offset \<open>off\<close> of the buffer.\<close>

definition at_frag :: "code \<Rightarrow> nat \<Rightarrow> frag \<Rightarrow> bool" where
  "at_frag C off f \<longleftrightarrow> take (length (frag_bytes f)) (drop off C) = frag_bytes f"

text \<open>
  What the instruction \<open>i\<close> of length \<open>n\<close> at offset \<open>j\<close> of the piece \<open>f\<close> may be: it ends
  at the next instruction of the piece or at the end of the piece, a branch is the branch
  of the piece, and it is none of the instructions that change the stack or the registers
  in which the prologue keeps the capabilities.
\<close>

definition instr_ok :: "frag \<Rightarrow> nat \<Rightarrow> instr \<Rightarrow> nat \<Rightarrow> bool" where
  "instr_ok f j i n \<longleftrightarrow>
     (j + n \<in> set (frag_starts f) \<or> j + n = length (frag_bytes f)) \<and>
     (case i of
        Push r \<Rightarrow> False
      | Pop r \<Rightarrow> False
      | Ret \<Rightarrow> False
      | MovReg s d \<Rightarrow> d = RDI
      | AddImm r b \<Rightarrow> r = RBX
      | SubImm r b \<Rightarrow> r = RBX
      | CmpImm r b \<Rightarrow> r = RAX
      | CallReg r \<Rightarrow> (r = R14 \<or> (r = R12 \<and> f = FWrite (le32 (frag_bytes f) 16) \<and> j = 7))
      | JmpRel d \<Rightarrow> f = FJmp (le32 (frag_bytes f) 1) \<and> d = sint (le32 (frag_bytes f) 1)
      | Je d \<Rightarrow> f = FLoop (le32 (frag_bytes f) 5) \<and> d = sint (le32 (frag_bytes f) 5) \<and>
          j + n = length (frag_bytes f)
      | Jne d \<Rightarrow> f = FWrite (le32 (frag_bytes f) 16) \<and> d = sint (le32 (frag_bytes f) 16) \<and>
          j + n = length (frag_bytes f)
      | Jl d \<Rightarrow> f = FRead (le32 (frag_bytes f) 12) \<and> d = sint (le32 (frag_bytes f) 12) \<and>
          j + n = 16
      | _ \<Rightarrow> True)"

text \<open>The pieces of a list with the offsets at which they lie.\<close>

fun frags_at :: "nat \<Rightarrow> frag list \<Rightarrow> (nat \<times> frag) list" where
  "frags_at off [] = []"
| "frags_at off (f # fs) = (off, f) # frags_at (off + length (frag_bytes f)) fs"

text \<open>
  A piece at offset \<open>o\<close> fits the set \<open>S\<close> of pieces when, unless it is a jump, another
  piece follows it, and its branch leads to the exit at offset 25 or to a piece.
\<close>

definition site_ok :: "(nat \<times> frag) set \<Rightarrow> nat \<Rightarrow> frag \<Rightarrow> bool" where
  "site_ok S off f \<longleftrightarrow>
     (case f of
        FRead w \<Rightarrow> (\<exists>g. (off + 19, g) \<in> S) \<and> int (off + 16) + sint w = 25
      | FWrite w \<Rightarrow> (\<exists>g. (off + 20, g) \<in> S) \<and> int (off + 20) + sint w = 25
      | FLoop w \<Rightarrow> (\<exists>g. (off + 9, g) \<in> S) \<and> (\<exists>t g. (t, g) \<in> S \<and> int (off + 9) + sint w = int t)
      | FJmp w \<Rightarrow>
          int (off + 5) + sint w = 25 \<or> (\<exists>t g. (t, g) \<in> S \<and> int (off + 5) + sint w = int t)
      | _ \<Rightarrow> (\<exists>g. (off + length (frag_bytes f), g) \<in> S))"

text \<open>
  The buffer \<open>C\<close> is a program with the pieces \<open>S\<close>: it starts with the prologue, the jump
  over the epilogue and the epilogue, a piece lies at offset 34, and every piece of \<open>S\<close>
  lies in the buffer and fits \<open>S\<close>.
\<close>

definition run_layout :: "code \<Rightarrow> (nat \<times> frag) set \<Rightarrow> bool" where
  "run_layout C S \<longleftrightarrow>
     take 34 C = START @ [0xeb, 0x09] @ EXIT \<and>
     (\<exists>f. (34, f) \<in> S) \<and>
     (\<forall>x \<in> S. at_frag C (fst x) (snd x) \<and> site_ok S (fst x) (snd x))"

text \<open>
  The states of a run. In the prologue, before its \<open>k\<close>-th instruction: the write function
  is still in \<^verbatim>\<open>%rdi\<close> or already in \<^verbatim>\<open>%r12\<close>, the read function in \<^verbatim>\<open>%rdx\<close> or in \<^verbatim>\<open>%r14\<close>. In
  the body: at an instruction of a piece, with the capabilities in \<^verbatim>\<open>%r12\<close> and \<^verbatim>\<open>%r14\<close>
  and the five saved registers on the stack. In the epilogue.
\<close>

definition entry_inv :: "'io caps \<Rightarrow> 'io machine \<Rightarrow> bool" where
  "entry_inv caps m \<longleftrightarrow>
     (\<exists>k<11. pc m = [0, 2, 4, 6, 7, 8, 11, 14, 17, 20, 23] ! k \<and>
        length (stack m) = min k 5 \<and>
        (if k \<le> 5 then regs m RDI = write_fn caps else regs m R12 = write_fn caps) \<and>
        (if k \<le> 7 then regs m RDX = read_fn caps else regs m R14 = read_fn caps))"

definition body_inv :: "'io caps \<Rightarrow> (nat \<times> frag) set \<Rightarrow> 'io machine \<Rightarrow> bool" where
  "body_inv caps S m \<longleftrightarrow>
     regs m R12 = write_fn caps \<and> regs m R14 = read_fn caps \<and> length (stack m) = 5 \<and>
     (\<exists>off f j. (off, f) \<in> S \<and> j \<in> set (frag_starts f) \<and> pc m = off + j)"

definition exit_inv :: "'io machine \<Rightarrow> bool" where
  "exit_inv m \<longleftrightarrow> (pc m = 25 \<and> length (stack m) = 5) \<or> pc m \<in> {26, 27, 29, 31, 33}"

definition run_inv :: "'io caps \<Rightarrow> (nat \<times> frag) set \<Rightarrow> 'io machine \<Rightarrow> bool" where
  "run_inv caps S m \<longleftrightarrow> entry_inv caps m \<or> body_inv caps S m \<or> exit_inv m"

text \<open>
  The instructions after which the next instruction of the buffer is executed and which
  leave the stack, \<^verbatim>\<open>%r12\<close> and \<^verbatim>\<open>%r14\<close> as they are.
\<close>

definition straight :: "instr \<Rightarrow> bool" where
  "straight i \<longleftrightarrow>
     (case i of
        Push r \<Rightarrow> False
      | Pop r \<Rightarrow> False
      | Ret \<Rightarrow> False
      | MovReg s d \<Rightarrow> d = RDI
      | AddImm r b \<Rightarrow> r = RBX
      | SubImm r b \<Rightarrow> r = RBX
      | CallReg r \<Rightarrow> r = R12 \<or> r = R14
      | JmpRel d \<Rightarrow> False
      | Je d \<Rightarrow> False
      | Jne d \<Rightarrow> False
      | Jl d \<Rightarrow> False
      | _ \<Rightarrow> True)"

section \<open>Properties of loop matching\<close>

lemma depth_from_0 [simp]: "depth_from level cs 0 = level"
  by (simp add: depth_from_def)

lemma depth_from_Cons:
  "depth_from level (c # cs) (Suc k) =
     depth_from (if c = CHR ''['' then level + 1 else if c = CHR '']'' then level - 1 else level) cs k"
  by (simp add: depth_from_def)

lemma find_loop_end_loop_Some:
  "1 \<le> level \<Longrightarrow>
   find_loop_end_loop level it cs = Some e \<longleftrightarrow>
     (\<exists>n < length cs. e = it + n \<and> depth_from level cs (Suc n) = 0 \<and>
        (\<forall>k \<le> n. depth_from level cs k \<noteq> 0))"
proof (induction cs arbitrary: level it)
  case Nil
  then show ?case by simp
next
  case (Cons c cs)
  define l where "l = (if c = CHR ''['' then level + 1 else if c = CHR '']'' then level - 1 else level)"
  have step: "\<And>k. depth_from level (c # cs) (Suc k) = depth_from l cs k"
    by (simp add: l_def depth_from_Cons)
  have ex: "(\<exists>n < length (c # cs). e = it + n \<and> depth_from level (c # cs) (Suc n) = 0 \<and>
        (\<forall>k \<le> n. depth_from level (c # cs) k \<noteq> 0)) \<longleftrightarrow>
     (e = it \<and> l = 0) \<or> 
     (\<exists>m < length cs. e = it + 1 + m \<and> depth_from l cs (Suc m) = 0 \<and>
        (\<forall>k \<le> m. depth_from l cs k \<noteq> 0))" (is "?A \<longleftrightarrow> ?B \<or> ?C")
  proof
    assume ?A
    then obtain n where n: "n < length (c # cs)" "e = it + n" "depth_from level (c # cs) (Suc n) = 0"
      "\<forall>k \<le> n. depth_from level (c # cs) k \<noteq> 0" by blast
    show "?B \<or> ?C"
    proof (cases n)
      case 0
      with n show ?thesis by (simp add: step)
    next
      case (Suc m)
      have "\<forall>k \<le> m. depth_from l cs k \<noteq> 0"
      proof (intro allI impI)
        fix k assume "k \<le> m"
        then have "Suc k \<le> n" using Suc by simp
        with n(4) have "depth_from level (c # cs) (Suc k) \<noteq> 0" by blast
        then show "depth_from l cs k \<noteq> 0" by (simp only: step simp_thms)
      qed
      moreover have "depth_from l cs (Suc m) = 0" using n(3) Suc by (simp only: step simp_thms)
      ultimately have ?C using n Suc by auto
      then show ?thesis ..
    qed
  next
    assume "?B \<or> ?C"
    then show ?A
    proof
      assume ?B
      then have "depth_from level (c # cs) (Suc 0) = 0" by (simp add: step)
      moreover have "\<forall>k \<le> (0::nat). depth_from level (c # cs) k \<noteq> 0" using Cons.prems by simp
      ultimately show ?A using \<open>?B\<close> by (intro exI[of _ 0]) simp
    next
      assume ?C
      then obtain m where m: "m < length cs" "e = it + 1 + m" "depth_from l cs (Suc m) = 0"
        "\<forall>k \<le> m. depth_from l cs k \<noteq> 0" by blast
      have "\<forall>k \<le> Suc m. depth_from level (c # cs) k \<noteq> 0"
      proof (intro allI impI)
        fix k assume k: "k \<le> Suc m"
        show "depth_from level (c # cs) k \<noteq> 0"
        proof (cases k)
          case 0 then show ?thesis using Cons.prems by simp
        next
          case (Suc j)
          then have "j \<le> m" using k by simp
          with m(4) have "depth_from l cs j \<noteq> 0" by blast
          then show ?thesis unfolding Suc by (simp only: step simp_thms)
        qed
      qed
      moreover have "depth_from level (c # cs) (Suc (Suc m)) = 0"
        using m(3) by (simp only: step simp_thms)
      ultimately show ?A using m by (intro exI[of _ "Suc m"]) simp
    qed
  qed
  show ?case
  proof (cases "c = CHR '']'' \<and> level - 1 = 0")
    case True
    then have "l = 0" by (simp add: l_def)
    have noC: "\<not> ?C" 
    proof
      assume ?C
      then obtain m where "\<forall>k \<le> m. depth_from l cs k \<noteq> 0" by blast
      then have "depth_from l cs 0 \<noteq> 0" by blast
      then show False using \<open>l = 0\<close> by simp
    qed
    have "find_loop_end_loop level it (c # cs) = Some e \<longleftrightarrow> e = it" using True by auto
    then show ?thesis unfolding ex using noC \<open>l = 0\<close> by auto
  next
    case False
    then have l1: "1 \<le> l" using Cons.prems by (auto simp: l_def)
    then have l0: "\<not> ?B" by linarith
    have eq: "find_loop_end_loop level it (c # cs) = find_loop_end_loop l (it + 1) cs"
      using False by (auto simp: l_def)
    show ?thesis unfolding ex eq using Cons.IH[OF l1, of "it + 1"] l0 by blast
  qed
qed

lemma find_loop_end_loop_None:
  "1 \<le> level \<Longrightarrow>
   find_loop_end_loop level it cs = None \<longleftrightarrow> (\<forall>k \<le> length cs. depth_from level cs k \<noteq> 0)"
proof (induction cs arbitrary: level it)
  case Nil
  then show ?case by simp
next
  case (Cons c cs)
  define l where "l = (if c = CHR ''['' then level + 1 else if c = CHR '']'' then level - 1 else level)"
  have step: "\<And>k. depth_from level (c # cs) (Suc k) = depth_from l cs k"
    by (simp add: l_def depth_from_Cons)
  have all: "(\<forall>k \<le> length (c # cs). depth_from level (c # cs) k \<noteq> 0) \<longleftrightarrow>
     (\<forall>k \<le> length cs. depth_from l cs k \<noteq> 0)" (is "?A \<longleftrightarrow> ?B")
  proof
    assume a: ?A
    show ?B
    proof (intro allI impI)
      fix k assume "k \<le> length cs"
      then have "Suc k \<le> length (c # cs)" by simp
      with a have "depth_from level (c # cs) (Suc k) \<noteq> 0" by blast
      then show "depth_from l cs k \<noteq> 0" by (simp only: step simp_thms)
    qed
  next
    assume b: ?B
    show ?A
    proof (intro allI impI)
      fix k assume k: "k \<le> length (c # cs)"
      show "depth_from level (c # cs) k \<noteq> 0"
      proof (cases k)
        case 0 then show ?thesis using Cons.prems by simp
      next
        case (Suc j)
        then have "j \<le> length cs" using k by simp
        with b have "depth_from l cs j \<noteq> 0" by blast
        then show ?thesis unfolding Suc by (simp only: step simp_thms)
      qed
    qed
  qed
  show ?case
  proof (cases "c = CHR '']'' \<and> level - 1 = 0")
    case True
    then have "l = 0" by (simp add: l_def)
    have "\<not> ?B"
    proof
      assume ?B
      then have "depth_from l cs 0 \<noteq> 0" by blast
      then show False using \<open>l = 0\<close> by simp
    qed
    moreover have "find_loop_end_loop level it (c # cs) \<noteq> None" using True by auto
    ultimately show ?thesis unfolding all by blast
  next
    case False
    then have l1: "1 \<le> l" using Cons.prems by (auto simp: l_def)
    have eq: "find_loop_end_loop level it (c # cs) = find_loop_end_loop l (it + 1) cs"
      using False by (auto simp: l_def)
    show ?thesis unfolding all eq by (rule Cons.IH[OF l1])
  qed
qed

section \<open>Properties of code generation\<close>

lemma length_bytes_of [simp]: "length (bytes_of w) = 4"
  by (simp add: bytes_of_def)

lemma add_jne_to_exit_eq:
  "add_jne_to_exit ex code = code @ [0x0f, 0x85] @ bytes_of (relative_address ex (length code + 2))"
  by (simp add: add_jne_to_exit_def Let_def)

lemma add_jl_to_exit_eq:
  "add_jl_to_exit ex code = code @ [0x0f, 0x8c] @ bytes_of (relative_address ex (length code + 2))"
  by (simp add: add_jl_to_exit_def Let_def)

lemma add_jmp_to_offset_eq:
  "add_jmp_to_offset off code = code @ [0xe9] @ bytes_of (relative_address off (length code + 1))"
  by (simp add: add_jmp_to_offset_def Let_def)

lemma generate_simple_code_append:
  "\<exists>frag. generate_simple_code ex c code = code @ frag \<and> length frag \<le> 20"
  by (simp add: generate_simple_code_def generate_left_code_def generate_right_code_def
      generate_subtract_code_def generate_add_code_def generate_read_code_def
      generate_write_code_def add_jne_to_exit_eq add_jl_to_exit_eq Let_def
      LEFT_def RIGHT_def SUBTRACT_def ADD_def READ_def READ_STORE_def WRITE_def)

lemma size_to_int_exact: "n < 2 ^ 31 \<Longrightarrow> size_to_int n = int n"
proof -
  assume "n < 2 ^ 31"
  then have "int n < 2 ^ 31" by (metis of_nat_less_numeral_power_cancel_iff)
  moreover have "(word_of_nat n :: 32 word) = word_of_int (int n)" by simp
  ultimately show ?thesis unfolding size_to_int_def
    by (simp only: sint_sbintrunc') (simp add: signed_take_bit_int_eq_self)
qed

lemma int_to_size_exact: "n < 2 ^ 64 \<Longrightarrow> int_to_size (int n) = n"
  unfolding int_to_size_def
  by (simp add: unat_of_nat take_bit_nat_eq_self)

lemma string_replace_patch:
  "length ph = length new \<Longrightarrow>
   string_replace (length pre) (length new) new (pre @ ph @ post) = Inr (pre @ new @ post)"
  by (simp add: string_replace_def)


lemma generate_loop_code_unfold:
  assumes size: "length code + 3 < 2 ^ 31"
  shows "(\<forall>e. generate_sequence_code ex (drop 1 r) (code @ LOOP_CMP @ placeholder) = Inl e \<longrightarrow>
            generate_loop_code ex r code = Inl e) \<and>
         (\<forall>body. generate_sequence_code ex (drop 1 r) (code @ LOOP_CMP @ placeholder) =
              Inr (code @ LOOP_CMP @ placeholder @ body) \<longrightarrow>
            generate_loop_code ex r code =
              Inr (code @ LOOP_CMP @
                   ([0x0f, 0x84] @ bytes_of (ucast ((word_of_nat (length code + 9 + length body + 5) :: 64 word) -
                      (word_of_int (int (length code + 3)) + 2 + 4)))) @
                   body @
                   ([0xe9] @ bytes_of (relative_address (int (length code)) (length code + 9 + length body + 1)))))"
proof (intro conjI allI impI)
  fix e assume "generate_sequence_code ex (drop 1 r) (code @ LOOP_CMP @ placeholder) = Inl e"
  then show "generate_loop_code ex r code = Inl e"
    by (simp add: placeholder_def Let_def)
next
  fix body
  assume b: "generate_sequence_code ex (drop 1 r) (code @ LOOP_CMP @ placeholder) =
              Inr (code @ LOOP_CMP @ placeholder @ body)"
  have ls: "size_to_int (length code) = int (length code)"
    using size by (intro size_to_int_exact) simp
  have js: "size_to_int (Suc (Suc (Suc (length code)))) = int (Suc (Suc (Suc (length code))))"
    using size by (intro size_to_int_exact) simp
  have A: "int_to_size (size_to_int (Suc (Suc (Suc (length code))))) = Suc (Suc (Suc (length code)))"
    unfolding js using size by (intro int_to_size_exact) simp
  have B: "(word_of_int (size_to_int (Suc (Suc (Suc (length code))))) :: 64 word) =
      word_of_nat (Suc (Suc (Suc (length code))))"
    unfolding js by simp
  show "generate_loop_code ex r code =
              Inr (code @ LOOP_CMP @
                   ([0x0f, 0x84] @ bytes_of (ucast ((word_of_nat (length code + 9 + length body + 5) :: 64 word) -
                      (word_of_int (int (length code + 3)) + 2 + 4)))) @
                   body @
                   ([0xe9] @ bytes_of (relative_address (int (length code)) (length code + 9 + length body + 1))))"
    using b
    by (simp add: Let_def ls A B add_jmp_to_offset_eq placeholder_def LOOP_CMP_def string_replace_def
        add.commute add.left_commute)
      (simp add: eval_nat_numeral)
qed

lemma ok_fromI:
  "res \<noteq> Inl OutOfRange \<Longrightarrow>
   (\<And>code'. res = Inr code' \<Longrightarrow> \<exists>body. code' = code @ body \<and> length body \<le> bound) \<Longrightarrow>
   ok_from code bound res"
  by (simp add: ok_from_def)

lemma ok_fromD:
  "ok_from code bound res \<Longrightarrow> res = Inr code' \<Longrightarrow>
     \<exists>body. code' = code @ body \<and> length body \<le> bound"
  by (simp add: ok_from_def)

lemma ok_from_no_throw: "ok_from code bound res \<Longrightarrow> res \<noteq> Inl OutOfRange"
  by (simp add: ok_from_def)

lemma gen_frame:
  "length code + 20 * length s < 2 ^ 31 \<Longrightarrow>
     ok_from code (20 * length s) (generate_sequence_code ex s code)"
  "length code + 14 + 20 * length (drop 1 r) < 2 ^ 31 \<Longrightarrow>
     ok_from code (14 + 20 * length (drop 1 r)) (generate_loop_code ex r code)"
proof (induction ex s code and ex r code rule: generate_sequence_code_generate_loop_code.induct)
  case (1 ex code)
  then show ?case by (simp add: ok_from_def)
next
  case (2 ex c cs code)
  show ?case
  proof (cases "c = CHR ''[''")
    case False
    obtain frag where frag: "generate_simple_code ex c code = code @ frag" "length frag \<le> 20"
      using generate_simple_code_append by blast
    have "ok_from (code @ frag) (20 * length cs) (generate_sequence_code ex cs (code @ frag))"
      using "2.IH"(3)[OF False] "2.prems" frag by simp
    moreover have "generate_sequence_code ex (c # cs) code = generate_sequence_code ex cs (code @ frag)"
      using False frag by simp
    ultimately show ?thesis using frag(2) by (fastforce simp: ok_from_def)
  next
    case True
    show ?thesis
    proof (cases "find_loop_end (c # cs)")
      case None
      then show ?thesis using True by (simp add: ok_from_def)
    next
      case (Some e)
      then have e: "1 \<le> e" "e < length (c # cs)" using find_loop_end_bound by blast+
      then have lr: "length (drop 1 (take e (c # cs))) = e - 1" by simp
      have "length code + 14 + 20 * length (drop 1 (take e (c # cs))) < 2 ^ 31"
        unfolding lr using "2.prems" e by simp
      from "2.IH"(1)[OF True Some this]
      have loop: "ok_from code (14 + 20 * (e - 1)) (generate_loop_code ex (take e (c # cs)) code)"
        unfolding lr .
      show ?thesis
      proof (cases "generate_loop_code ex (take e (c # cs)) code")
        case (Inl err)
        then have "generate_sequence_code ex (c # cs) code = Inl err" using True Some by simp
        moreover have "err \<noteq> OutOfRange" using loop Inl by (simp add: ok_from_def)
        ultimately show ?thesis by (simp add: ok_from_def)
      next
        case (Inr code2)
        then obtain b1 where b1: "code2 = code @ b1" "length b1 \<le> 14 + 20 * (e - 1)"
          using ok_fromD[OF loop] by blast
        have lrest: "length (drop (e + 1) (c # cs)) = length cs - e" by simp
        have "length code2 + 20 * length (drop (e + 1) (c # cs)) < 2 ^ 31"
          unfolding lrest using "2.prems" e b1 by simp
        from "2.IH"(2)[OF True Some Inr this]
        have rest: "ok_from code2 (20 * (length cs - e))
            (generate_sequence_code ex (drop (e + 1) (c # cs)) code2)"
          unfolding lrest .
        have eq: "generate_sequence_code ex (c # cs) code =
            generate_sequence_code ex (drop (e + 1) (c # cs)) code2"
          using True Some Inr by simp
        show ?thesis
        proof (rule ok_fromI)
          show "generate_sequence_code ex (c # cs) code \<noteq> Inl OutOfRange"
            unfolding eq by (rule ok_from_no_throw[OF rest])
        next
          fix code' assume "generate_sequence_code ex (c # cs) code = Inr code'"
          then obtain b2 where b2: "code' = code2 @ b2" "length b2 \<le> 20 * (length cs - e)"
            unfolding eq using ok_fromD[OF rest] by blast
          have "code' = code @ (b1 @ b2)" using b1 b2 by simp
          moreover have "length (b1 @ b2) \<le> 20 * length (c # cs)" using b1 b2 e by simp
          ultimately show "\<exists>body. code' = code @ body \<and> length body \<le> 20 * length (c # cs)"
            by blast
        qed
      qed
    qed
  qed
next
  case (3 ex r code)
  have "length (code @ LOOP_CMP @ placeholder) + 20 * length (drop 1 r) < 2 ^ 31"
    using "3.prems" by (simp add: LOOP_CMP_def placeholder_def)
  then have body: "ok_from (code @ LOOP_CMP @ placeholder) (20 * length (drop 1 r))
      (generate_sequence_code ex (drop 1 r) (code @ LOOP_CMP @ placeholder))"
    using "3.IH"[OF refl refl refl refl] by (simp add: placeholder_def)
  have size: "length code + 3 < 2 ^ 31" using "3.prems" by simp
  note unf = generate_loop_code_unfold[OF size, of ex r]
  show ?case
  proof (cases "generate_sequence_code ex (drop 1 r) (code @ LOOP_CMP @ placeholder)")
    case (Inl err)
    then have "generate_loop_code ex r code = Inl err" using unf by blast
    moreover have "err \<noteq> OutOfRange" using body Inl by (simp add: ok_from_def)
    ultimately show ?thesis by (simp add: ok_from_def)
  next
    case (Inr code3)
    then obtain b where b: "code3 = (code @ LOOP_CMP @ placeholder) @ b"
      "length b \<le> 20 * length (drop 1 r)"
      using ok_fromD[OF body] by blast
    then have "generate_sequence_code ex (drop 1 r) (code @ LOOP_CMP @ placeholder) =
        Inr (code @ LOOP_CMP @ placeholder @ b)" using Inr by simp
    then obtain w1 w2 where "generate_loop_code ex r code =
        Inr (code @ LOOP_CMP @ ([0x0f, 0x84] @ bytes_of w1) @ b @ ([0xe9] @ bytes_of w2))"
      using unf by blast
    then show ?thesis using b(2) by (simp add: ok_from_def LOOP_CMP_def)
  qed
qed


lemma bytes_roundtrip_bit:
  assumes "n < 32"
  shows "bit (ucast (ucast w :: byte) OR push_bit 8 (ucast (ucast (drop_bit 8 w) :: byte)) OR
     push_bit 16 (ucast (ucast (drop_bit 16 w) :: byte)) OR
     push_bit 24 (ucast (ucast (drop_bit 24 w) :: byte)) :: 32 word) n = bit (w :: 32 word) n"
proof -
  consider "n < 8" | "8 \<le> n" "n < 16" | "16 \<le> n" "n < 24" | "24 \<le> n" "n < 32"
    using assms by fastforce
  then show ?thesis
  proof cases
    case 1
    then show ?thesis by (simp add: bit_simps)
  next
    case 2
    then show ?thesis by (auto simp: bit_simps)
  next
    case 3
    then show ?thesis by (auto simp: bit_simps)
  next
    case 4
    then show ?thesis by (auto simp: bit_simps)
  qed
qed

lemma le32_bytes: "le32 (bytes_of w) 0 = w"
  unfolding le32_def bytes_of_def
  by (rule bit_word_eqI) (simp add: bytes_roundtrip_bit)

lemma le32_append: "le32 (pre @ c) (length pre + p) = le32 c p"
  by (simp add: le32_def nth_append add.assoc)

lemma le32_prefix: "p + 4 \<le> length c \<Longrightarrow> le32 (c @ post) p = le32 c p"
  by (simp add: le32_def nth_append)

lemma ucast_64_32: "(ucast (word_of_int x :: 64 word) :: 32 word) = word_of_int x"
  by (rule bit_word_eqI) (auto simp: bit_simps)

lemma relative_address_eq:
  "relative_address t n = word_of_int (t - (int n + 4))"
proof -
  have "(word_of_int t :: 64 word) - (word_of_nat n + 4) = word_of_int (t - (int n + 4))"
    by simp
  then show ?thesis unfolding relative_address_def by (simp only: ucast_64_32)
qed


lemma find_none_open:
  "find_loop_end_loop (int (Suc l)) it cs = None \<Longrightarrow> Suc d \<le> open_brackets (Suc l + d) cs"
proof (induction cs arbitrary: l it)
  case Nil
  then show ?case by simp
next
  case (Cons c cs)
  show ?case
  proof (cases "c = CHR ''[''")
    case True
    then have "find_loop_end_loop (int (Suc (Suc l))) (it + 1) cs = None"
      using Cons.prems by (simp add: add.commute)
    from Cons.IH[OF this] show ?thesis using True by simp
  next
    case False
    show ?thesis
    proof (cases "c = CHR '']''")
      case True
      then obtain l' where l: "l = Suc l'" using Cons.prems by (cases l) auto
      then have "find_loop_end_loop (int (Suc l')) (it + 1) cs = None"
        using Cons.prems True by simp
      from Cons.IH[OF this] show ?thesis using True l by simp
    next
      case nc: False
      then have "find_loop_end_loop (int (Suc l)) (it + 1) cs = None"
        using Cons.prems False by simp
      from Cons.IH[OF this] show ?thesis using False nc by simp
    qed
  qed
qed

lemma find_some_open:
  "find_loop_end_loop (int (Suc l)) it cs = Some e \<Longrightarrow>
     open_brackets (Suc l + d) cs = open_brackets d (drop (e - it + 1) cs) \<and>
     open_brackets l (take (e - it) cs) = 0"
proof (induction cs arbitrary: l it)
  case Nil
  then show ?case by simp
next
  case (Cons c cs)
  show ?case
  proof (cases "c = CHR ''[''")
    case True
    then have f: "find_loop_end_loop (int (Suc (Suc l))) (it + 1) cs = Some e"
      using Cons.prems by (simp add: add.commute)
    then have "it + 1 \<le> e" using find_loop_end_loop_bound by blast
    then obtain k where k: "e - it = Suc k" "e - (it + 1) = k" by (cases "e - it") auto
    from Cons.IH[OF f] show ?thesis using True k by simp
  next
    case False
    show ?thesis
    proof (cases "c = CHR '']''")
      case True
      show ?thesis
      proof (cases l)
        case 0
        then have "e = it" using Cons.prems True by simp
        then show ?thesis using True 0 by simp
      next
        case (Suc l')
        then have f: "find_loop_end_loop (int (Suc l')) (it + 1) cs = Some e"
          using Cons.prems True by simp
        then have "it + 1 \<le> e" using find_loop_end_loop_bound by blast
        then obtain k where k: "e - it = Suc k" "e - (it + 1) = k" by (cases "e - it") auto
        from Cons.IH[OF f] show ?thesis using True Suc k by simp
      qed
    next
      case nc: False
      then have f: "find_loop_end_loop (int (Suc l)) (it + 1) cs = Some e"
        using Cons.prems False by simp
      then have "it + 1 \<le> e" using find_loop_end_loop_bound by blast
      then obtain k where k: "e - it = Suc k" "e - (it + 1) = k" by (cases "e - it") auto
      from Cons.IH[OF f] show ?thesis using False nc k by simp
    qed
  qed
qed

lemma gen_succeeds_iff:
  "length code + 20 * length s < 2 ^ 31 \<Longrightarrow>
     (\<exists>code'. generate_sequence_code ex s code = Inr code') \<longleftrightarrow> open_brackets 0 s = 0"
  "length code + 14 + 20 * length (drop 1 r) < 2 ^ 31 \<Longrightarrow>
     (\<exists>code'. generate_loop_code ex r code = Inr code') \<longleftrightarrow> open_brackets 0 (drop 1 r) = 0"
proof (induction ex s code and ex r code rule: generate_sequence_code_generate_loop_code.induct)
  case (1 ex code)
  then show ?case by simp
next
  case (2 ex c cs code)
  show ?case
  proof (cases "c = CHR ''[''")
    case False
    obtain frag where frag: "generate_simple_code ex c code = code @ frag" "length frag \<le> 20"
      using generate_simple_code_append by blast
    have "(\<exists>code'. generate_sequence_code ex cs (code @ frag) = Inr code') \<longleftrightarrow>
        open_brackets 0 cs = 0"
      using "2.IH"(3)[OF False] "2.prems" frag by simp
    moreover have "generate_sequence_code ex (c # cs) code = generate_sequence_code ex cs (code @ frag)"
      using False frag by simp
    moreover have "open_brackets 0 (c # cs) = open_brackets 0 cs" using False by simp
    ultimately show ?thesis by simp
  next
    case True
    show ?thesis
    proof (cases "find_loop_end (c # cs)")
      case None
      then have "find_loop_end_loop (int (Suc 0)) 1 cs = None" by (simp add: find_loop_end_def)
      from find_none_open[OF this, of 0] have "open_brackets 0 (c # cs) \<noteq> 0" using True by simp
      then show ?thesis using True None by simp
    next
      case (Some e)
      then have e: "1 \<le> e" "e < length (c # cs)" using find_loop_end_bound by blast+
      from Some have "find_loop_end_loop (int (Suc 0)) 1 cs = Some e" by (simp add: find_loop_end_def)
      from find_some_open[OF this, of 0]
      have ob: "open_brackets 0 (c # cs) = open_brackets 0 (drop e cs)"
        "open_brackets 0 (take (e - 1) cs) = 0"
        using True e by simp_all
      have body: "drop 1 (take e (c # cs)) = take (e - 1) cs"
        using e by (cases e) simp_all
      have rest: "drop (e + 1) (c # cs) = drop e cs" by simp
      have lr: "length (drop 1 (take e (c # cs))) = e - 1" using e by simp
      have sz: "length code + 14 + 20 * length (drop 1 (take e (c # cs))) < 2 ^ 31"
        unfolding lr using "2.prems" e by simp
      from "2.IH"(1)[OF True Some sz] ob(2)
      obtain code2 where code2: "generate_loop_code ex (take e (c # cs)) code = Inr code2"
        unfolding body by blast
      have "ok_from code (14 + 20 * (e - 1)) (generate_loop_code ex (take e (c # cs)) code)"
        using gen_frame(2)[OF sz] unfolding lr .
      then obtain b1 where b1: "code2 = code @ b1" "length b1 \<le> 14 + 20 * (e - 1)"
        using ok_fromD code2 by blast
      have lrest: "length (drop (e + 1) (c # cs)) = length cs - e" by simp
      have "length code2 + 20 * length (drop (e + 1) (c # cs)) < 2 ^ 31"
        unfolding lrest using "2.prems" e b1 by simp
      from "2.IH"(2)[OF True Some code2 this]
      have "(\<exists>code'. generate_sequence_code ex (drop e cs) code2 = Inr code') \<longleftrightarrow>
          open_brackets 0 (drop e cs) = 0"
        unfolding rest .
      moreover have "generate_sequence_code ex (c # cs) code =
            generate_sequence_code ex (drop e cs) code2"
        using True Some code2 by simp
      ultimately show ?thesis using ob(1) by simp
    qed
  qed
next
  case (3 ex r code)
  have sz: "length (code @ LOOP_CMP @ placeholder) + 20 * length (drop 1 r) < 2 ^ 31"
    using "3.prems" by (simp add: LOOP_CMP_def placeholder_def)
  then have body: "(\<exists>code'. generate_sequence_code ex (drop 1 r) (code @ LOOP_CMP @ placeholder) = Inr code')
      \<longleftrightarrow> open_brackets 0 (drop 1 r) = 0"
    using "3.IH"[OF refl refl refl refl] by (simp add: placeholder_def)
  have fr: "ok_from (code @ LOOP_CMP @ placeholder) (20 * length (drop 1 r))
      (generate_sequence_code ex (drop 1 r) (code @ LOOP_CMP @ placeholder))"
    by (rule gen_frame(1)[OF sz])
  have size: "length code + 3 < 2 ^ 31" using "3.prems" by simp
  note unf = generate_loop_code_unfold[OF size, of ex r]
  show ?case
  proof (cases "generate_sequence_code ex (drop 1 r) (code @ LOOP_CMP @ placeholder)")
    case (Inl err)
    then have "generate_loop_code ex r code = Inl err" using unf by blast
    then show ?thesis using body Inl by simp
  next
    case (Inr code3)
    then obtain b where b: "code3 = (code @ LOOP_CMP @ placeholder) @ b"
      using ok_fromD[OF fr] by blast
    then have "generate_sequence_code ex (drop 1 r) (code @ LOOP_CMP @ placeholder) =
        Inr (code @ LOOP_CMP @ placeholder @ b)" using Inr by simp
    then have "\<exists>code'. generate_loop_code ex r code = Inr code'"
      using unf by blast
    then show ?thesis using body Inr by simp
  qed
qed

lemma init_code_length: "length (START @ [0xeb] @ [word_of_nat (length EXIT)] @ EXIT) = 34"
  by (simp add: START_def EXIT_def)

lemma init_unfold:
  "init h this source =
     (case generate_sequence_code 25 source (START @ [0xeb] @ [word_of_nat (length EXIT)] @ EXIT) of
           Inl (LoopEndNotFound text) \<Rightarrow>
             \<lparr>returned = Returned False, program = this\<lparr>exit_offset := 25\<rparr>,
              diagnostics = [UnableToFindLoopEnd text], effects = []\<rparr>
         | Inl OutOfRange \<Rightarrow>
             \<lparr>returned = Threw, program = this\<lparr>exit_offset := 25\<rparr>, diagnostics = [], effects = []\<rparr>
         | Inr code \<Rightarrow>
             (let code = add_jmp_to_exit 25 code;
                  required_memory =
                    size_to_int ((length code div pagesize h + 1) * pagesize h);
                  mapped = [Mmap (int_to_size required_memory)]
              in if mmap_result h = 0 then
                   \<lparr>returned = Returned False, program = this\<lparr>exit_offset := 25, executable := mmap_result h\<rparr>,
                    diagnostics = [ErrorMakingMemoryExecutable], effects = mapped\<rparr>
                 else if mmap_result h = MAP_FAILED then
                   \<lparr>returned = Faulted, program = this\<lparr>exit_offset := 25, executable := mmap_result h\<rparr>,
                    diagnostics = [], effects = mapped\<rparr>
                 else
                   (let copied = mapped @ [Memmove (mmap_result h) code];
                        protected = copied @
                          [Mprotect (mmap_result h) (int_to_size required_memory)]
                    in if mprotect_result h \<noteq> 0 then
                         \<lparr>returned = Returned False,
                          program = this\<lparr>exit_offset := 25, executable := mmap_result h\<rparr>,
                          diagnostics = [MprotectFailed], effects = protected\<rparr>
                       else
                         \<lparr>returned = Returned True,
                          program = this\<lparr>exit_offset := 25, executable := mmap_result h\<rparr>,
                          diagnostics = [], effects = protected\<rparr>)))"
proof -
  have "size_to_int (length (START @ [0xeb] @ [word_of_nat (length EXIT) :: byte])) = 25"
    by (simp add: START_def size_to_int_def)
  then show ?thesis
    by (simp add: init_def Let_def split: sum.splits gen_error.splits)
qed

lemma init_code_bound:
  "34 + 20 * length source < 2 ^ 31 \<Longrightarrow>
   length (START @ [0xeb] @ [word_of_nat (length EXIT)] @ EXIT) + 20 * length source < 2 ^ 31"
  by (simp only: init_code_length)

lemma find_loop_end_loop_prefix:
  "find_loop_end_loop level it cs = Some e \<Longrightarrow> find_loop_end_loop level it (cs @ x) = Some e"
  by (induction cs arbitrary: level it) (auto split: if_splits)

lemma stray_close_skipped_general:
  "open_brackets 0 pre = 0 \<Longrightarrow>
   generate_sequence_code ex (pre @ CHR '']'' # post) code =
   generate_sequence_code ex (pre @ post) code"
proof (induction pre arbitrary: code rule: length_induct)
  case (1 pre)
  show ?case
  proof (cases pre)
    case Nil
    have "generate_simple_code ex CHR '']'' code = code" by (simp add: generate_simple_code_def)
    then show ?thesis using Nil by simp
  next
    case (Cons c cs)
    show ?thesis
    proof (cases "c = CHR ''[''")
      case False
      then have "open_brackets 0 cs = 0" using "1.prems" Cons by (simp split: if_splits)
      moreover have "length cs < length pre" using Cons by simp
      ultimately have "generate_sequence_code ex (cs @ CHR '']'' # post) code' =
          generate_sequence_code ex (cs @ post) code'" for code'
        using "1.IH" by blast
      then show ?thesis using False Cons by simp
    next
      case True
      then have ob: "open_brackets (Suc 0 + 0) cs = 0" using "1.prems" Cons by simp
      obtain e where e: "find_loop_end_loop (int (Suc 0)) 1 cs = Some e"
        using find_none_open[of 0 1 cs 0] ob
        by (cases "find_loop_end_loop (int (Suc 0)) 1 cs") auto
      then have eb: "1 \<le> e" "e < 1 + length cs" using find_loop_end_loop_bound by blast+
      from find_some_open[OF e, of 0] ob have rest0: "open_brackets 0 (drop e cs) = 0"
        using eb by simp
      have f1: "find_loop_end (c # cs @ CHR '']'' # post) = Some e"
        using find_loop_end_loop_prefix[OF e, of "CHR '']'' # post"] by (simp add: find_loop_end_def)
      have f2: "find_loop_end (c # cs @ post) = Some e"
        using find_loop_end_loop_prefix[OF e, of post] by (simp add: find_loop_end_def)
      have t: "take e (c # cs @ CHR '']'' # post) = take e (c # cs @ post)"
        using eb by (cases e) simp_all
      have d1: "drop (e + 1) (c # cs @ CHR '']'' # post) = drop e cs @ CHR '']'' # post"
        and d2: "drop (e + 1) (c # cs @ post) = drop e cs @ post"
        using eb by simp_all
      have "length (drop e cs) < length pre" using Cons by simp
      then have ih: "generate_sequence_code ex (drop e cs @ CHR '']'' # post) code' =
          generate_sequence_code ex (drop e cs @ post) code'" for code'
        using "1.IH" rest0 by blast
      have l: "generate_sequence_code ex ((c # cs) @ CHR '']'' # post) code =
          (case generate_loop_code ex (take e (c # cs @ post)) code of
             Inl err \<Rightarrow> Inl err
           | Inr code2 \<Rightarrow> generate_sequence_code ex (drop e cs @ CHR '']'' # post) code2)"
        by (simp only: append_Cons generate_sequence_code.simps(2) if_P[OF True] f1 option.case t d1)
      have r: "generate_sequence_code ex ((c # cs) @ post) code =
          (case generate_loop_code ex (take e (c # cs @ post)) code of
             Inl err \<Rightarrow> Inl err
           | Inr code2 \<Rightarrow> generate_sequence_code ex (drop e cs @ post) code2)"
        by (simp only: append_Cons generate_sequence_code.simps(2) if_P[OF True] f2 option.case d2)
      show ?thesis
        unfolding Cons l r ih ..
    qed
  qed
qed

lemma frags_bytes_simps [simp]:
  "frags_bytes [] = []"
  "frags_bytes (f # fs) = frag_bytes f @ frags_bytes fs"
  "frags_bytes (fs @ gs) = frags_bytes fs @ frags_bytes gs"
  by (simp_all add: frags_bytes_def)

lemma bounds_start: "off \<in> bounds off fs"
  by (cases fs) auto

lemma bounds_append:
  "bounds off (fs @ gs) = bounds off fs \<union> bounds (off + length (frags_bytes fs)) gs"
proof (induction fs arbitrary: off)
  case Nil
  then show ?case using bounds_start[of off gs] by auto
next
  case (Cons f fs)
  from Cons.IH[of "off + length (frag_bytes f)"] show ?case by (simp add: add.assoc)
qed

lemma bounds_end: "off + length (frags_bytes fs) \<in> bounds off fs"
proof (induction fs arbitrary: off)
  case Nil
  then show ?case by simp
next
  case (Cons f fs)
  from Cons.IH[of "off + length (frag_bytes f)"] show ?case by (simp add: add.assoc)
qed

lemma frag_ok_mono: "B \<subseteq> B' \<Longrightarrow> frag_ok B off f \<Longrightarrow> frag_ok B' off f"
  by (cases f) auto

lemma frags_ok_mono: "B \<subseteq> B' \<Longrightarrow> frags_ok B off fs \<Longrightarrow> frags_ok B' off fs"
  by (induction fs arbitrary: off) (auto intro: frag_ok_mono)

lemma frags_ok_append:
  "frags_ok B off (fs @ gs) \<longleftrightarrow>
     frags_ok B off fs \<and> frags_ok B (off + length (frags_bytes fs)) gs"
  by (induction fs arbitrary: off) (auto simp: add.assoc)

lemma sint_word_of_int_exact:
  "- (2 ^ 31) \<le> d \<Longrightarrow> d < 2 ^ 31 \<Longrightarrow> sint (word_of_int d :: 32 word) = d"
  by (simp add: sint_sbintrunc' signed_take_bit_int_eq_self)

lemma exit_displacement:
  assumes "n + 4 < 2 ^ 31"
  shows "int (n + 4) + sint (relative_address 25 n) = 25"
proof -
  have "sint (word_of_int (25 - (int n + 4)) :: 32 word) = 25 - (int n + 4)"
    using assms by (intro sint_word_of_int_exact) simp_all
  then show ?thesis by (simp add: relative_address_eq)
qed

lemma generate_simple_code_layout:
  assumes "length code + 20 < 2 ^ 31"
  shows "\<exists>fs. generate_simple_code 25 c code = code @ frags_bytes fs \<and>
     (\<forall>B. frags_ok B (length code) fs) \<and> length (frags_bytes fs) \<le> 20"
proof -
  consider "c = CHR ''<''" | "c = CHR ''>''" | "c = CHR ''-''" | "c = CHR ''+''"
    | "c = CHR '',''" | "c = CHR ''.''"
    | "c \<noteq> CHR ''<''" "c \<noteq> CHR ''>''" "c \<noteq> CHR ''-''" "c \<noteq> CHR ''+''" "c \<noteq> CHR '',''"
      "c \<noteq> CHR ''.''"
    by blast
  then show ?thesis
  proof cases
    case 1
    then show ?thesis
      by (intro exI[of _ "[FLeft]"]) (simp add: generate_simple_code_def generate_left_code_def LEFT_def)
  next
    case 2
    then show ?thesis
      by (intro exI[of _ "[FRight]"]) (simp add: generate_simple_code_def generate_right_code_def RIGHT_def)
  next
    case 3
    then show ?thesis
      by (intro exI[of _ "[FSub]"])
        (simp add: generate_simple_code_def generate_subtract_code_def SUBTRACT_def)
  next
    case 4
    then show ?thesis
      by (intro exI[of _ "[FAdd]"]) (simp add: generate_simple_code_def generate_add_code_def ADD_def)
  next
    case 5
    have "int (length code + 12 + 4) + sint (relative_address 25 (length code + 12)) = 25"
      using assms by (intro exit_displacement) simp
    then show ?thesis using 5
      by (intro exI[of _ "[FRead (relative_address 25 (length code + 12))]"],
          simp add: generate_simple_code_def generate_read_code_def add_jl_to_exit_eq Let_def
          READ_def READ_STORE_def add.commute)
        (simp add: eval_nat_numeral)
  next
    case 6
    have "int (length code + 16 + 4) + sint (relative_address 25 (length code + 16)) = 25"
      using assms by (intro exit_displacement) simp
    then show ?thesis using 6
      by (intro exI[of _ "[FWrite (relative_address 25 (length code + 16))]"],
          simp add: generate_simple_code_def generate_write_code_def add_jne_to_exit_eq Let_def
          WRITE_def add.commute)
        (simp add: eval_nat_numeral)
  next
    case 7
    then show ?thesis
      by (intro exI[of _ "[]"]) (simp add: generate_simple_code_def)
  qed
qed

lemma generate_loop_code_shape:
  assumes "length code + 14 + 20 * length (drop 1 r) < 2 ^ 31"
    and "generate_sequence_code ex (drop 1 r) (code @ LOOP_CMP @ placeholder) = Inr code3"
  shows "\<exists>body rel_skip rel_back.
     code3 = code @ LOOP_CMP @ placeholder @ body \<and>
     generate_loop_code ex r code =
       Inr (code @ LOOP_CMP @ ([0x0f, 0x84] @ bytes_of rel_skip) @ body @ ([0xe9] @ bytes_of rel_back)) \<and>
     int (length (code @ LOOP_CMP) + 6) + sint rel_skip =
       int (length (code @ LOOP_CMP @ placeholder @ body @ ([0xe9] @ bytes_of rel_back))) \<and>
     int (length (code @ LOOP_CMP @ placeholder @ body @ ([0xe9] @ bytes_of rel_back))) + sint rel_back =
       int (length code)"
proof -
  have sz: "length (code @ LOOP_CMP @ placeholder) + 20 * length (drop 1 r) < 2 ^ 31"
    using assms(1) by (simp add: LOOP_CMP_def placeholder_def)
  from ok_fromD[OF gen_frame(1)[OF sz] assms(2)]
  obtain body where body: "code3 = (code @ LOOP_CMP @ placeholder) @ body"
    "length body \<le> 20 * length (drop 1 r)" by blast
  define n where "n = length code"
  define b where "b = length body"
  have bound: "n + 14 + b < 2 ^ 31" using assms(1) body(2) by (simp add: n_def b_def)
  define rel_skip :: "32 word" where
    "rel_skip = ucast ((word_of_nat (length code + 9 + length body + 5) :: 64 word) -
                      (word_of_int (int (length code + 3)) + 2 + 4))"
  define rel_back where
    "rel_back = relative_address (int (length code)) (length code + 9 + length body + 1)"
  have size: "length code + 3 < 2 ^ 31" using assms(1) by simp
  have gen: "generate_loop_code ex r code =
       Inr (code @ LOOP_CMP @ ([0x0f, 0x84] @ bytes_of rel_skip) @ body @ ([0xe9] @ bytes_of rel_back))"
    unfolding rel_skip_def rel_back_def
    using generate_loop_code_unfold[OF size, of ex r] assms(2) body(1) by simp
  have exact: "sint (word_of_int d :: 32 word) = d" if "- (2 ^ 31) \<le> d \<and> d < 2 ^ 31" for d
    using that by (simp add: sint_sbintrunc' signed_take_bit_int_eq_self)
  have "(word_of_nat (n + 9 + b + 5) :: 64 word) - (word_of_int (int (n + 3)) + 2 + 4) =
      word_of_int (int b + 5)" by simp
  then have "rel_skip = word_of_int (int b + 5)"
    unfolding rel_skip_def n_def[symmetric] b_def[symmetric] by (simp only: ucast_64_32)
  moreover have "- (2 ^ 31) \<le> int b + 5 \<and> int b + 5 < 2 ^ 31" using bound by simp
  ultimately have sk: "sint rel_skip = int b + 5" using exact by blast
  have "rel_back = word_of_int (- (int b + 14))"
    unfolding rel_back_def relative_address_eq n_def[symmetric] b_def[symmetric]
    by (simp add: algebra_simps)
  moreover have "- (2 ^ 31) \<le> - (int b + 14) \<and> - (int b + 14) < 2 ^ 31" using bound by simp
  ultimately have bk: "sint rel_back = - (int b + 14)" using exact by blast
  have l1: "int (length (code @ LOOP_CMP) + 6) + sint rel_skip =
       int (length (code @ LOOP_CMP @ placeholder @ body @ ([0xe9] @ bytes_of rel_back)))"
    unfolding sk by (simp add: LOOP_CMP_def placeholder_def b_def)
  have l2: "int (length (code @ LOOP_CMP @ placeholder @ body @ ([0xe9] @ bytes_of rel_back))) + sint rel_back =
       int (length code)"
    unfolding bk by (simp add: LOOP_CMP_def placeholder_def b_def)
  show ?thesis using body(1) gen l1 l2 by (intro exI[of _ body] exI[of _ rel_skip] exI[of _ rel_back]) simp
qed

lemma laid_outD:
  "laid_out code res \<Longrightarrow> res = Inr code' \<Longrightarrow>
     \<exists>fs. code' = code @ frags_bytes fs \<and> frags_ok (bounds (length code) fs) (length code) fs"
  by (simp add: laid_out_def)

lemma gen_layout_aux:
  "ex = 25 \<Longrightarrow> length code + 20 * length s < 2 ^ 31 \<Longrightarrow>
     laid_out code (generate_sequence_code ex s code)"
  "ex = 25 \<Longrightarrow> length code + 14 + 20 * length (drop 1 r) < 2 ^ 31 \<Longrightarrow>
     laid_out code (generate_loop_code ex r code)"
proof (induction ex s code and ex r code
    rule: generate_sequence_code_generate_loop_code.induct)
  case (1 ex code)
  have "code = code @ frags_bytes [] \<and> frags_ok (bounds (length code) []) (length code) []"
    by simp
  then show ?case unfolding laid_out_def by (metis generate_sequence_code.simps(1) Inr_inject)
next
  case (2 ex c cs code)
  note ex = "2.prems"(1)
  note size = "2.prems"(2)
  show ?case
  proof (cases "c = CHR ''[''")
    case False
    have "length code + 20 < 2 ^ 31" using size by simp
    from generate_simple_code_layout[OF this, of c]
    obtain gs where gs: "generate_simple_code ex c code = code @ frags_bytes gs"
      "\<And>B. frags_ok B (length code) gs" "length (frags_bytes gs) \<le> 20"
      unfolding ex by blast
    have eq: "generate_sequence_code ex (c # cs) code =
        generate_sequence_code ex cs (code @ frags_bytes gs)"
      using False gs(1) by simp
    have rest: "laid_out (code @ frags_bytes gs) (generate_sequence_code ex cs (code @ frags_bytes gs))"
      using "2.IH"(3)[OF False ex] "2.prems" gs(1,3) by simp
    show ?thesis
      unfolding laid_out_def eq
    proof (intro allI impI)
      fix code' assume "generate_sequence_code ex cs (code @ frags_bytes gs) = Inr code'"
      from laid_outD[OF rest this] obtain fs where fs: "code' = (code @ frags_bytes gs) @ frags_bytes fs"
        "frags_ok (bounds (length (code @ frags_bytes gs)) fs) (length (code @ frags_bytes gs)) fs"
        by blast
      have "code' = code @ frags_bytes (gs @ fs)" using fs(1) by simp
      moreover have "frags_ok (bounds (length code) (gs @ fs)) (length code) (gs @ fs)"
        unfolding frags_ok_append bounds_append
      proof
        show "frags_ok (bounds (length code) gs \<union> bounds (length code + length (frags_bytes gs)) fs)
            (length code) gs" by (rule gs(2))
        have "frags_ok (bounds (length code + length (frags_bytes gs)) fs)
            (length code + length (frags_bytes gs)) fs" using fs(2) by simp
        then show "frags_ok (bounds (length code) gs \<union> bounds (length code + length (frags_bytes gs)) fs)
            (length code + length (frags_bytes gs)) fs"
          by (rule frags_ok_mono[rotated]) simp
      qed
      ultimately show "\<exists>fs. code' = code @ frags_bytes fs \<and>
          frags_ok (bounds (length code) fs) (length code) fs" by blast
    qed
  next
    case True
    show ?thesis
    proof (cases "find_loop_end (c # cs)")
      case None
      then show ?thesis using True by (simp add: laid_out_def)
    next
      case (Some e)
      then have e: "1 \<le> e" "e < length (c # cs)" using find_loop_end_bound by blast+
      then have lr: "length (drop 1 (take e (c # cs))) = e - 1" by simp
      have sz: "length code + 14 + 20 * length (drop 1 (take e (c # cs))) < 2 ^ 31"
        unfolding lr using size e by simp
      from "2.IH"(1)[OF True Some ex this]
      have loop: "laid_out code (generate_loop_code ex (take e (c # cs)) code)" .
      show ?thesis
      proof (cases "generate_loop_code ex (take e (c # cs)) code")
        case (Inl err)
        then have "generate_sequence_code ex (c # cs) code = Inl err" using True Some by simp
        then show ?thesis by (simp add: laid_out_def)
      next
        case (Inr code2)
        from laid_outD[OF loop Inr] obtain ls where ls: "code2 = code @ frags_bytes ls"
          "frags_ok (bounds (length code) ls) (length code) ls" by blast
        have "ok_from code (14 + 20 * (e - 1)) (generate_loop_code ex (take e (c # cs)) code)"
          using gen_frame(2)[OF sz] unfolding lr .
        then obtain b1 where b1: "code2 = code @ b1" "length b1 \<le> 14 + 20 * (e - 1)"
          using ok_fromD Inr by blast
        have lrest: "length (drop (e + 1) (c # cs)) = length cs - e" by simp
        have "length code2 + 20 * length (drop (e + 1) (c # cs)) < 2 ^ 31"
          unfolding lrest using size e b1 by simp
        from "2.IH"(2)[OF True Some Inr ex this]
        have rest: "laid_out code2 (generate_sequence_code ex (drop (e + 1) (c # cs)) code2)" .
        have eq: "generate_sequence_code ex (c # cs) code =
            generate_sequence_code ex (drop (e + 1) (c # cs)) code2"
          using True Some Inr by simp
        show ?thesis
          unfolding laid_out_def eq
        proof (intro allI impI)
          fix code' assume "generate_sequence_code ex (drop (e + 1) (c # cs)) code2 = Inr code'"
          from laid_outD[OF rest this] obtain fs where fs: "code' = code2 @ frags_bytes fs"
            "frags_ok (bounds (length code2) fs) (length code2) fs"
            by blast
          have "code' = code @ frags_bytes (ls @ fs)" using fs(1) ls(1) by simp
          moreover have "frags_ok (bounds (length code) (ls @ fs)) (length code) (ls @ fs)"
            unfolding frags_ok_append bounds_append
          proof
            show "frags_ok (bounds (length code) ls \<union> bounds (length code + length (frags_bytes ls)) fs)
                (length code) ls"
              using ls(2) by (rule frags_ok_mono[rotated]) simp
            have "frags_ok (bounds (length code + length (frags_bytes ls)) fs)
                (length code + length (frags_bytes ls)) fs" using fs(2) ls(1) by simp
            then show "frags_ok (bounds (length code) ls \<union> bounds (length code + length (frags_bytes ls)) fs)
                (length code + length (frags_bytes ls)) fs"
              by (rule frags_ok_mono[rotated]) simp
          qed
          ultimately show "\<exists>fs. code' = code @ frags_bytes fs \<and>
              frags_ok (bounds (length code) fs) (length code) fs" by blast
        qed
      qed
    qed
  qed
next
  case (3 ex r code)
  note ex = "3.prems"(1)
  note size = "3.prems"(2)
  have sz: "length (code @ LOOP_CMP @ placeholder) + 20 * length (drop 1 r) < 2 ^ 31"
    using size by (simp add: LOOP_CMP_def placeholder_def)
  then have body: "laid_out (code @ LOOP_CMP @ placeholder)
      (generate_sequence_code ex (drop 1 r) (code @ LOOP_CMP @ placeholder))"
    using "3.IH"[OF refl refl refl refl ex] by (simp add: placeholder_def)
  show ?case
    unfolding laid_out_def
  proof (intro allI impI)
    fix code' assume res: "generate_loop_code ex r code = Inr code'"
    obtain code3 where c3: "generate_sequence_code ex (drop 1 r) (code @ LOOP_CMP @ placeholder) =
        Inr code3"
      using res by (cases "generate_sequence_code ex (drop 1 r) (code @ LOOP_CMP @ placeholder)")
        (simp_all add: placeholder_def Let_def)
    from generate_loop_code_shape[OF size c3]
    obtain body rel_skip rel_back where sh: "code3 = code @ LOOP_CMP @ placeholder @ body"
      "generate_loop_code ex r code =
         Inr (code @ LOOP_CMP @ ([0x0f, 0x84] @ bytes_of rel_skip) @ body @ ([0xe9] @ bytes_of rel_back))"
      "int (length (code @ LOOP_CMP) + 6) + sint rel_skip =
         int (length (code @ LOOP_CMP @ placeholder @ body @ ([0xe9] @ bytes_of rel_back)))"
      "int (length (code @ LOOP_CMP @ placeholder @ body @ ([0xe9] @ bytes_of rel_back))) + sint rel_back =
         int (length code)"
      by blast
    from laid_outD[OF body c3] obtain bs where bs:
      "code3 = (code @ LOOP_CMP @ placeholder) @ frags_bytes bs"
      "frags_ok (bounds (length (code @ LOOP_CMP @ placeholder)) bs)
         (length (code @ LOOP_CMP @ placeholder)) bs"
      by blast
    have bb: "body = frags_bytes bs" using sh(1) bs(1) by simp
    define fs where "fs = FLoop rel_skip # bs @ [FJmp rel_back]"
    define n where "n = length code"
    define b where "b = length (frags_bytes bs)"
    have c': "code' = code @ frags_bytes fs"
      using res sh(2) bb by (simp add: fs_def)
    have B: "bounds n fs = insert n (bounds (n + 9) bs \<union> {n + 9 + b, n + 9 + b + 5})"
      by (auto simp: fs_def bounds_append LOOP_CMP_def b_def)
    have skip: "int (n + 9) + sint rel_skip = int (n + 9 + b + 5)"
      using sh(3) by (simp add: LOOP_CMP_def placeholder_def bb n_def b_def)
    have jb: "int (n + 9 + b + 5) + sint rel_back = int n"
      using sh(4) by (simp add: LOOP_CMP_def placeholder_def bb n_def b_def)
    have len9: "length (code @ LOOP_CMP @ placeholder) = n + 9"
      by (simp add: LOOP_CMP_def placeholder_def n_def)
    have "frags_ok (bounds (n + 9) bs) (n + 9) bs"
      using bs(2) unfolding len9 .
    then have inner: "frags_ok (bounds n fs) (n + 9) bs"
      by (rule frags_ok_mono[rotated]) (auto simp: B)
    have e1: "n + 9 + b + 5 \<in> bounds n fs" and e2: "n \<in> bounds n fs" by (auto simp: B)
    have h: "frag_ok (bounds n fs) n (FLoop rel_skip)"
      unfolding frag_ok.simps using skip e1 by (intro bexI[of _ "n + 9 + b + 5"])
    have j: "frag_ok (bounds n fs) (n + 9 + b) (FJmp rel_back)"
      unfolding frag_ok.simps using jb e2 by (intro bexI[of _ n])
    have "frags_ok (bounds n fs) n (FLoop rel_skip # bs @ [FJmp rel_back])"
      using h inner j by (simp add: frags_ok_append LOOP_CMP_def b_def)
    then have "frags_ok (bounds n fs) n fs" by (simp only: fs_def)
    then show "\<exists>fs. code' = code @ frags_bytes fs \<and>
        frags_ok (bounds (length code) fs) (length code) fs"
      using c' unfolding n_def by blast
  qed
qed

section \<open>Properties of a run\<close>

lemma le32_at:
  "length pre = p \<Longrightarrow> le32 (pre @ bytes_of w @ post) p = w"
proof -
  have "le32 (bytes_of w @ post) 0 = w"
    using le32_prefix[of 0 "bytes_of w" post] by (simp add: le32_bytes)
  then show "length pre = p \<Longrightarrow> le32 (pre @ bytes_of w @ post) p = w"
    using le32_append[of pre "bytes_of w @ post" 0] by auto
qed

lemmas decode_defs = decode_def decode_bytes_def orelse_def decode1_def decode2_def
  decode3_def decode4_def decode5_def decode6_def

lemma le32_frag:
  "le32 (frag_bytes (FRead w)) 12 = w"
  "le32 (frag_bytes (FWrite w)) 16 = w"
  "le32 (frag_bytes (FLoop w)) 5 = w"
  "le32 (frag_bytes (FJmp w)) 1 = w"
proof -
  have "le32 ((READ @ [0x0f, 0x8c]) @ bytes_of w @ READ_STORE) 12 = w"
    by (rule le32_at) (simp add: READ_def)
  then show "le32 (frag_bytes (FRead w)) 12 = w" by simp
  have "le32 ((WRITE @ [0x0f, 0x85]) @ bytes_of w @ []) 16 = w"
    by (rule le32_at) (simp add: WRITE_def)
  then show "le32 (frag_bytes (FWrite w)) 16 = w" by simp
  have "le32 ((LOOP_CMP @ [0x0f, 0x84]) @ bytes_of w @ []) 5 = w"
    by (rule le32_at) (simp add: LOOP_CMP_def)
  then show "le32 (frag_bytes (FLoop w)) 5 = w" by simp
  have "le32 ([0xe9] @ bytes_of w @ []) 1 = w"
    by (rule le32_at) simp
  then show "le32 (frag_bytes (FJmp w)) 1 = w" by simp
qed

lemma le32_frag_Suc: "le32 (frag_bytes (FJmp w)) (Suc 0) = w"
  using le32_frag(4)[of w] by simp

lemma le32_jcc: "le32 (a # b # bytes_of w @ rest) 2 = w"
  using le32_at[of "[a, b]" 2 w rest] by simp

lemma le32_jmp: "le32 (a # bytes_of w @ rest) 1 = w"
  using le32_at[of "[a]" 1 w rest] by simp

lemma frag_decode_FWrite:
  "decode (frag_bytes (FWrite w) @ rest) 0 = Some (MovReg R13 RDI, 3)"
  "decode (frag_bytes (FWrite w) @ rest) 3 = Some (LoadRsiByte, 4)"
  "decode (frag_bytes (FWrite w) @ rest) 7 = Some (CallReg R12, 3)"
  "decode (frag_bytes (FWrite w) @ rest) 10 = Some (CmpImm RAX 1, 4)"
  "decode (frag_bytes (FWrite w) @ rest) 14 = Some (Jne (sint w), 6)"
proof -
  note l = le32_jcc[of 15 133 w rest]
  show "decode (frag_bytes (FWrite w) @ rest) 0 = Some (MovReg R13 RDI, 3)"
    "decode (frag_bytes (FWrite w) @ rest) 3 = Some (LoadRsiByte, 4)"
    "decode (frag_bytes (FWrite w) @ rest) 7 = Some (CallReg R12, 3)"
    "decode (frag_bytes (FWrite w) @ rest) 10 = Some (CmpImm RAX 1, 4)"
    by (simp_all add: decode_defs WRITE_def)
  have "decode (frag_bytes (FWrite w) @ rest) 14 = decode_bytes (15 # 133 # bytes_of w @ rest)"
    by (simp add: decode_def WRITE_def)
  also have "\<dots> = Some (Jne (sint w), 6)"
    using l by (simp add: decode_bytes_def orelse_def decode1_def decode2_def
      decode3_def decode4_def decode5_def decode6_def bytes_of_def)
  finally show "decode (frag_bytes (FWrite w) @ rest) 14 = Some (Jne (sint w), 6)" .
qed

lemma frag_decode_simple:
  "decode (frag_bytes FLeft @ rest) 0 = Some (SubImm RBX 1, 4)"
  "decode (frag_bytes FRight @ rest) 0 = Some (AddImm RBX 1, 4)"
  "decode (frag_bytes FSub @ rest) 0 = Some (LoadAl, 2)"
  "decode (frag_bytes FSub @ rest) 2 = Some (SubAl 1, 2)"
  "decode (frag_bytes FSub @ rest) 4 = Some (StoreAl, 2)"
  "decode (frag_bytes FAdd @ rest) 0 = Some (LoadAl, 2)"
  "decode (frag_bytes FAdd @ rest) 2 = Some (AddAl 1, 2)"
  "decode (frag_bytes FAdd @ rest) 4 = Some (StoreAl, 2)"
  by (simp_all add: decode_defs LEFT_def RIGHT_def SUBTRACT_def ADD_def)

lemma frag_decode_FRead:
  "decode (frag_bytes (FRead w) @ rest) 0 = Some (MovReg RBP RDI, 3)"
  "decode (frag_bytes (FRead w) @ rest) 3 = Some (CallReg R14, 3)"
  "decode (frag_bytes (FRead w) @ rest) 6 = Some (CmpImm RAX 0, 4)"
  "decode (frag_bytes (FRead w) @ rest) 10 = Some (Jl (sint w), 6)"
  "decode (frag_bytes (FRead w) @ rest) 16 = Some (StoreRax, 3)"
proof -
  note l = le32_jcc[of 15 140 w "READ_STORE @ rest"]
  show "decode (frag_bytes (FRead w) @ rest) 0 = Some (MovReg RBP RDI, 3)"
    "decode (frag_bytes (FRead w) @ rest) 3 = Some (CallReg R14, 3)"
    "decode (frag_bytes (FRead w) @ rest) 6 = Some (CmpImm RAX 0, 4)"
    by (simp_all add: decode_defs READ_def)
  have "decode (frag_bytes (FRead w) @ rest) 10 =
      decode_bytes (15 # 140 # bytes_of w @ READ_STORE @ rest)"
    by (simp add: decode_def READ_def)
  also have "\<dots> = Some (Jl (sint w), 6)"
    using l by (simp add: decode_bytes_def orelse_def decode1_def decode2_def
      decode3_def decode4_def decode5_def decode6_def bytes_of_def)
  finally show "decode (frag_bytes (FRead w) @ rest) 10 = Some (Jl (sint w), 6)" .
  have "decode (frag_bytes (FRead w) @ rest) 16 = decode_bytes (READ_STORE @ rest)"
    by (simp add: decode_def READ_def bytes_of_def)
  also have "\<dots> = Some (StoreRax, 3)"
    by (simp add: decode_bytes_def orelse_def decode1_def decode2_def decode3_def
      READ_STORE_def)
  finally show "decode (frag_bytes (FRead w) @ rest) 16 = Some (StoreRax, 3)" .
qed

lemma frag_decode_FLoop:
  "decode (frag_bytes (FLoop w) @ rest) 0 = Some (CmpbMem 0, 3)"
  "decode (frag_bytes (FLoop w) @ rest) 3 = Some (Je (sint w), 6)"
proof -
  note l = le32_jcc[of 15 132 w rest]
  show "decode (frag_bytes (FLoop w) @ rest) 0 = Some (CmpbMem 0, 3)"
    by (simp add: decode_defs LOOP_CMP_def)
  have "decode (frag_bytes (FLoop w) @ rest) 3 = decode_bytes (15 # 132 # bytes_of w @ rest)"
    by (simp add: decode_def LOOP_CMP_def)
  also have "\<dots> = Some (Je (sint w), 6)"
    using l by (simp add: decode_bytes_def orelse_def decode1_def decode2_def
      decode3_def decode4_def decode5_def decode6_def bytes_of_def)
  finally show "decode (frag_bytes (FLoop w) @ rest) 3 = Some (Je (sint w), 6)" .
qed

lemma frag_decode_FJmp:
  "decode (frag_bytes (FJmp w) @ rest) 0 = Some (JmpRel (sint w), 5)"
proof -
  note l = le32_jmp[of 233 w rest]
  have "decode (frag_bytes (FJmp w) @ rest) 0 = decode_bytes (233 # bytes_of w @ rest)"
    by (simp add: decode_def)
  also have "\<dots> = Some (JmpRel (sint w), 5)"
    using l by (simp add: decode_bytes_def orelse_def decode1_def decode2_def
      decode3_def decode4_def decode5_def bytes_of_def)
  finally show ?thesis .
qed

lemma length_frag_bytes:
  "length (frag_bytes FLeft) = 4" "length (frag_bytes FRight) = 4"
  "length (frag_bytes FSub) = 6" "length (frag_bytes FAdd) = 6"
  "length (frag_bytes (FRead w)) = 19" "length (frag_bytes (FWrite w)) = 20"
  "length (frag_bytes (FLoop w)) = 9" "length (frag_bytes (FJmp w)) = 5"
  by (simp_all add: LEFT_def RIGHT_def SUBTRACT_def ADD_def READ_def READ_STORE_def WRITE_def
      LOOP_CMP_def)

lemma frag_instr_ok:
  assumes "j \<in> set (frag_starts f)"
  shows "\<exists>i n. decode (frag_bytes f @ rest) j = Some (i, n) \<and> instr_ok f j i n"
proof (cases f)
  case FLeft
  then show ?thesis using assms
    by (auto simp: frag_decode_simple instr_ok_def length_frag_bytes simp del: frag_bytes.simps)
next
  case FRight
  then show ?thesis using assms
    by (auto simp: frag_decode_simple instr_ok_def length_frag_bytes simp del: frag_bytes.simps)
next
  case FSub
  then show ?thesis using assms
    by (auto simp: frag_decode_simple instr_ok_def length_frag_bytes simp del: frag_bytes.simps)
next
  case FAdd
  then show ?thesis using assms
    by (auto simp: frag_decode_simple instr_ok_def length_frag_bytes simp del: frag_bytes.simps)
next
  case (FRead w)
  then show ?thesis using assms
    by (auto simp: frag_decode_FRead instr_ok_def length_frag_bytes le32_frag
        simp del: frag_bytes.simps)
next
  case (FWrite w)
  then show ?thesis using assms
    by (auto simp: frag_decode_FWrite instr_ok_def length_frag_bytes le32_frag
        simp del: frag_bytes.simps)
next
  case (FLoop w)
  then show ?thesis using assms
    by (auto simp: frag_decode_FLoop instr_ok_def length_frag_bytes le32_frag
        simp del: frag_bytes.simps)
next
  case (FJmp w)
  then show ?thesis using assms
    by (auto simp: frag_decode_FJmp instr_ok_def length_frag_bytes le32_frag le32_frag_Suc
        simp del: frag_bytes.simps)
qed

lemma frags_at_append:
  "frags_at off (fs @ gs) = frags_at off fs @ frags_at (off + length (frags_bytes fs)) gs"
  by (induction fs arbitrary: off) (simp_all add: add.assoc)

lemma bounds_frags_at:
  "bounds off fs = fst ` set (frags_at off fs) \<union> {off + length (frags_bytes fs)}"
proof (induction fs arbitrary: off)
  case Nil
  then show ?case by simp
next
  case (Cons f fs)
  from Cons.IH[of "off + length (frag_bytes f)"] show ?case by (auto simp: add.assoc)
qed

lemma frags_at_ok:
  "(p, f) \<in> set (frags_at off fs) \<Longrightarrow> frags_ok B off fs \<Longrightarrow> frag_ok B p f"
  by (induction fs arbitrary: off) auto

lemma frags_at_next:
  "(p, f) \<in> set (frags_at off fs) \<Longrightarrow> p + length (frag_bytes f) \<in> bounds off fs"
proof (induction fs arbitrary: off)
  case Nil
  then show ?case by simp
next
  case (Cons g fs)
  show ?case
  proof (cases "(p, f) = (off, g)")
    case True
    then show ?thesis using bounds_start[of "off + length (frag_bytes g)" fs] by simp
  next
    case False
    then have "(p, f) \<in> set (frags_at (off + length (frag_bytes g)) fs)" using Cons.prems by auto
    from Cons.IH[OF this] show ?thesis by simp
  qed
qed

lemma frags_at_bytes:
  "(p, f) \<in> set (frags_at off fs) \<Longrightarrow> length pre = off \<Longrightarrow>
     at_frag (pre @ frags_bytes fs @ post) p f"
proof (induction fs arbitrary: off pre)
  case Nil
  then show ?case by simp
next
  case (Cons g fs)
  show ?case
  proof (cases "(p, f) = (off, g)")
    case True
    then show ?thesis using Cons.prems(2) by (simp add: at_frag_def)
  next
    case False
    then have "(p, f) \<in> set (frags_at (off + length (frag_bytes g)) fs)" using Cons.prems by auto
    from Cons.IH[OF this, of "pre @ frag_bytes g"] show ?thesis using Cons.prems(2) by simp
  qed
qed

lemma init_run_layout:
  assumes gen: "generate_sequence_code 25 source
      (START @ [0xeb] @ [word_of_nat (length EXIT)] @ EXIT) = Inr code1"
    and size: "39 + 20 * length source < 2 ^ 31"
  shows "\<exists>S. run_layout (add_jmp_to_exit 25 code1) S"
proof -
  let ?c0 = "START @ [0xeb] @ [word_of_nat (length EXIT)] @ EXIT"
  have l0: "length ?c0 = 34" by (rule init_code_length)
  have sz: "length ?c0 + 20 * length source < 2 ^ 31" using size by (simp only: l0)
  from laid_outD[OF gen_layout_aux(1)[OF refl sz] gen]
  obtain fs where fs: "code1 = ?c0 @ frags_bytes fs" "frags_ok (bounds 34 fs) 34 fs"
    unfolding l0 by blast
  obtain body where "code1 = ?c0 @ body" "length body \<le> 20 * length source"
    using ok_fromD[OF gen_frame(1)[OF sz] gen] by blast
  then have b: "length (frags_bytes fs) \<le> 20 * length source" using fs(1) by simp
  define e where "e = 34 + length (frags_bytes fs)"
  define wf where "wf = relative_address 25 (e + 1)"
  define gs where "gs = fs @ [FJmp wf]"
  define S where "S = set (frags_at 34 gs)"
  have "length (?c0 @ frags_bytes fs) = length ?c0 + length (frags_bytes fs)"
    by (rule length_append)
  then have lc: "length code1 = e" unfolding l0 fs(1)[symmetric] e_def .
  have "add_jmp_to_exit 25 code1 = code1 @ [0xe9] @ bytes_of wf"
    unfolding add_jmp_to_exit_def add_jmp_to_offset_eq lc wf_def ..
  then have C: "add_jmp_to_exit 25 code1 = ?c0 @ frags_bytes gs @ []"
    unfolding fs(1) gs_def by simp
  have S: "S = set (frags_at 34 fs) \<union> {(e, FJmp wf)}"
    by (simp add: S_def gs_def frags_at_append e_def)
  have inS: "\<exists>g. (t, g) \<in> S" if "t \<in> bounds 34 fs" for t
    using that unfolding bounds_frags_at S e_def by force
  have wf: "int (e + 5) + sint wf = 25"
    using exit_displacement[of "e + 1"] size b by (simp add: wf_def e_def)
  have first: "\<exists>f. (34, f) \<in> S"
    by (rule inS) (rule bounds_start)
  have pre: "take 34 (add_jmp_to_exit 25 code1) = START @ [0xeb, 0x09] @ EXIT"
    unfolding C by (simp add: START_def EXIT_def)
  have each: "at_frag (add_jmp_to_exit 25 code1) p f \<and> site_ok S p f" if x: "(p, f) \<in> S" for p f
  proof
    show "at_frag (add_jmp_to_exit 25 code1) p f"
      unfolding C using x l0 unfolding S_def by (intro frags_at_bytes)
    show "site_ok S p f"
    proof (cases "(p, f) \<in> set (frags_at 34 fs)")
      case True
      have ok: "frag_ok (bounds 34 fs) p f" by (rule frags_at_ok[OF True fs(2)])
      have nx: "\<exists>g. (p + length (frag_bytes f), g) \<in> S"
        by (rule inS) (rule frags_at_next[OF True])
      show ?thesis
      proof (cases f)
        case (FRead w)
        then show ?thesis using ok nx by (simp add: site_ok_def length_frag_bytes del: frag_bytes.simps)
      next
        case (FWrite w)
        then show ?thesis using ok nx by (simp add: site_ok_def length_frag_bytes del: frag_bytes.simps)
      next
        case (FLoop w)
        then show ?thesis using ok nx inS
          by (auto simp: site_ok_def length_frag_bytes simp del: frag_bytes.simps)
      next
        case (FJmp w)
        then show ?thesis using ok inS
          by (auto simp: site_ok_def simp del: frag_bytes.simps)
      qed (use nx in \<open>simp_all add: site_ok_def del: frag_bytes.simps\<close>)
    next
      case False
      then have "p = e" "f = FJmp wf" using x S by auto
      then show ?thesis using wf by (simp add: site_ok_def)
    qed
  qed
  have "run_layout (add_jmp_to_exit 25 code1) S"
    unfolding run_layout_def using pre first each by auto
  then show ?thesis ..
qed

lemma exec_straight:
  assumes "straight i" and "exec caps i nx m = Next m'"
  shows "pc m' = nx \<and> regs m' R12 = regs m R12 \<and> regs m' R14 = regs m R14 \<and>
     stack m' = stack m"
  using assms
  by (cases i)
    (auto simp: straight_def exec_def set_reg_def set_al_def split: if_splits prod.splits)

lemma exec_branch:
  assumes "i = Je d \<or> i = Jne d \<or> i = Jl d \<or> i = JmpRel d"
    and "exec caps i nx m = Next m'"
  shows "regs m' = regs m \<and> stack m' = stack m \<and> mem m' = mem m \<and> io m' = io m \<and>
     ((i \<noteq> JmpRel d \<and> pc m' = nx) \<or> (0 \<le> int nx + d \<and> int (pc m') = int nx + d))"
  using assms
  by (auto simp: exec_def jump_def split: if_splits)

lemma instr_ok_cases:
  assumes "instr_ok f j i n"
  shows "straight i \<or>
     (\<exists>w. f = FJmp w \<and> i = JmpRel (sint w)) \<or>
     (\<exists>w. f = FLoop w \<and> i = Je (sint w) \<and> j + n = 9) \<or>
     (\<exists>w. f = FWrite w \<and> i = Jne (sint w) \<and> j + n = 20) \<or>
     (\<exists>w. f = FRead w \<and> i = Jl (sint w) \<and> j + n = 16)"
proof (cases i)
  case (JmpRel d)
  then show ?thesis using assms by (auto simp: instr_ok_def)
next
  case (Je d)
  then have "f = FLoop (le32 (frag_bytes f) 5)" "d = sint (le32 (frag_bytes f) 5)"
    "j + n = length (frag_bytes f)"
    using assms by (auto simp: instr_ok_def)
  then show ?thesis using Je by (metis length_frag_bytes(7))
next
  case (Jne d)
  then have "f = FWrite (le32 (frag_bytes f) 16)" "d = sint (le32 (frag_bytes f) 16)"
    "j + n = length (frag_bytes f)"
    using assms by (auto simp: instr_ok_def)
  then show ?thesis using Jne by (metis length_frag_bytes(6))
next
  case (Jl d)
  then have "f = FRead (le32 (frag_bytes f) 12)" "d = sint (le32 (frag_bytes f) 12)"
    "j + n = 16"
    using assms by (auto simp: instr_ok_def)
  then show ?thesis using Jl by metis
qed (use assms in \<open>auto simp: instr_ok_def straight_def\<close>)

lemma zero_start: "0 \<in> set (frag_starts f)"
  by (cases f) simp_all

lemma decode_shift: "decode (pre @ xs) (length pre + j) = decode xs j"
  by (simp add: decode_def)

lemma at_frag_decode:
  assumes "at_frag C off f"
  shows "decode C (off + j) = decode (frag_bytes f @ drop (off + length (frag_bytes f)) C) j"
proof -
  have le: "off + length (frag_bytes f) \<le> length C"
  proof (rule ccontr)
    assume "\<not> off + length (frag_bytes f) \<le> length C"
    moreover have "0 < length (frag_bytes f)"
      by (cases f) (simp_all add: length_frag_bytes del: frag_bytes.simps)
    ultimately have "min (length C - off) (length (frag_bytes f)) < length (frag_bytes f)"
      by arith
    then have "length (take (length (frag_bytes f)) (drop off C)) < length (frag_bytes f)"
      by simp
    moreover have "length (take (length (frag_bytes f)) (drop off C)) = length (frag_bytes f)"
      using assms unfolding at_frag_def by (rule arg_cong)
    ultimately show False by linarith
  qed
  have "drop off C = frag_bytes f @ drop (off + length (frag_bytes f)) C"
    using assms append_take_drop_id[of "length (frag_bytes f)" "drop off C"]
    by (simp add: at_frag_def add.commute)
  then have "C = take off C @ frag_bytes f @ drop (off + length (frag_bytes f)) C"
    using append_take_drop_id[of off C] by simp
  moreover have "length (take off C) = off" using le by simp
  ultimately show ?thesis using decode_shift[of "take off C" _ j] by metis
qed

lemma site_next:
  assumes "site_ok S off f" and "\<forall>w. f \<noteq> FJmp w"
  shows "\<exists>g. (off + length (frag_bytes f), g) \<in> S"
  using assms by (cases f) (simp_all add: site_ok_def length_frag_bytes del: frag_bytes.simps)

lemma body_step:
  assumes L: "run_layout C S" and I: "body_inv caps S m" and st: "step caps C m = Next m'"
  shows "body_inv caps S m' \<or> exit_inv m'"
proof -
  from I obtain off f j where site: "(off, f) \<in> S" "j \<in> set (frag_starts f)" "pc m = off + j"
    and keep: "regs m R12 = write_fn caps" "regs m R14 = read_fn caps" "length (stack m) = 5"
    unfolding body_inv_def by blast
  have at: "at_frag C off f" and ok: "site_ok S off f"
    using L site(1) unfolding run_layout_def by force+
  obtain i n where dec: "decode C (off + j) = Some (i, n)" and iok: "instr_ok f j i n"
    using frag_instr_ok[OF site(2)] at_frag_decode[OF at] by metis
  have ex: "exec caps i (off + j + n) m = Next m'"
    using st dec site(3) by (simp add: step_def)
  have here: "\<exists>off' f' j'. (off', f') \<in> S \<and> j' \<in> set (frag_starts f') \<and> off + (j + n) = off' + j'"
    if nj: "\<forall>w. f \<noteq> FJmp w"
  proof (cases "j + n \<in> set (frag_starts f)")
    case True
    then show ?thesis using site(1) by blast
  next
    case False
    then have "j + n = length (frag_bytes f)" using iok by (simp add: instr_ok_def)
    moreover obtain g where "(off + length (frag_bytes f), g) \<in> S"
      using site_next[OF ok nj] by blast
    ultimately show ?thesis using zero_start[of g] by (metis add.right_neutral)
  qed
  have target: "\<exists>off' f' j'. (off', f') \<in> S \<and> j' \<in> set (frag_starts f') \<and> p = off' + j'"
    if pg: "(p, g) \<in> S" for p g
    using pg zero_start[of g] by (metis add.right_neutral)
  from instr_ok_cases[OF iok]
  consider (s) "straight i"
    | (jmp) w where "f = FJmp w" "i = JmpRel (sint w)"
    | (je) w where "f = FLoop w" "i = Je (sint w)" "j + n = 9"
    | (jne) w where "f = FWrite w" "i = Jne (sint w)" "j + n = 20"
    | (jl) w where "f = FRead w" "i = Jl (sint w)" "j + n = 16"
    by blast
  then show ?thesis
  proof cases
    case s
    from exec_straight[OF s ex]
    have m': "pc m' = off + j + n" "regs m' R12 = regs m R12" "regs m' R14 = regs m R14"
      "stack m' = stack m" by simp_all
    have "\<forall>w. f \<noteq> FJmp w"
    proof (intro allI notI)
      fix w assume "f = FJmp w"
      then have "i = JmpRel (sint w)"
        using dec site(2) at_frag_decode[OF at, of j] frag_decode_FJmp by simp
      then show False using s by (simp add: straight_def)
    qed
    from here[OF this] show ?thesis
      unfolding body_inv_def using m' keep by (simp add: add.assoc)
  next
    case jmp
    from exec_branch[OF _ ex, of "sint w"] jmp(2)
    have m': "regs m' = regs m" "stack m' = stack m" "int (pc m') = int (off + j + n) + sint w"
      by auto
    have j0: "j = 0" "n = 5"
      using site(2) jmp(1) dec at_frag_decode[OF at, of j] frag_decode_FJmp by auto
    have "int (off + 5) + sint w = 25 \<or> (\<exists>t g. (t, g) \<in> S \<and> int (off + 5) + sint w = int t)"
      using ok jmp(1) by (simp add: site_ok_def)
    then show ?thesis
    proof
      assume "int (off + 5) + sint w = 25"
      then have "pc m' = 25" using m'(3) j0 by simp
      then show ?thesis using m'(2) keep by (simp add: exit_inv_def)
    next
      assume "\<exists>t g. (t, g) \<in> S \<and> int (off + 5) + sint w = int t"
      then obtain t g where t: "(t, g) \<in> S" "int (off + 5) + sint w = int t" by blast
      then have "pc m' = t" using m'(3) j0 by simp
      then show ?thesis unfolding body_inv_def using target[OF t(1)] m' keep by simp
    qed
  next
    case je
    from exec_branch[OF _ ex, of "sint w"] je(2)
    have m': "regs m' = regs m" "stack m' = stack m"
      "pc m' = off + j + n \<or> int (pc m') = int (off + j + n) + sint w"
      by auto
    have tg: "\<exists>t g. (t, g) \<in> S \<and> int (off + 9) + sint w = int t"
      using ok je(1) by (simp add: site_ok_def)
    from m'(3) show ?thesis
    proof
      assume "pc m' = off + j + n"
      moreover have "\<forall>w. f \<noteq> FJmp w" using je(1) by simp
      ultimately show ?thesis
        unfolding body_inv_def using here m' keep by (simp add: add.assoc)
    next
      assume a: "int (pc m') = int (off + j + n) + sint w"
      obtain t g where t: "(t, g) \<in> S" "int (off + 9) + sint w = int t" using tg by blast
      then have "pc m' = t" using a je(3) by (simp add: add.assoc)
      then show ?thesis unfolding body_inv_def using target[OF t(1)] m' keep by simp
    qed
  next
    case jne
    from exec_branch[OF _ ex, of "sint w"] jne(2)
    have m': "regs m' = regs m" "stack m' = stack m"
      "pc m' = off + j + n \<or> int (pc m') = int (off + j + n) + sint w"
      by auto
    have tg: "int (off + 20) + sint w = 25"
      using ok jne(1) by (simp add: site_ok_def)
    from m'(3) show ?thesis
    proof
      assume "pc m' = off + j + n"
      moreover have "\<forall>w. f \<noteq> FJmp w" using jne(1) by simp
      ultimately show ?thesis
        unfolding body_inv_def using here m' keep by (simp add: add.assoc)
    next
      assume a: "int (pc m') = int (off + j + n) + sint w"
      then have "pc m' = 25" using tg jne(3) by (simp add: add.assoc)
      then show ?thesis using m'(2) keep by (simp add: exit_inv_def)
    qed
  next
    case jl
    from exec_branch[OF _ ex, of "sint w"] jl(2)
    have m': "regs m' = regs m" "stack m' = stack m"
      "pc m' = off + j + n \<or> int (pc m') = int (off + j + n) + sint w"
      by auto
    have tg: "int (off + 16) + sint w = 25"
      using ok jl(1) by (simp add: site_ok_def)
    from m'(3) show ?thesis
    proof
      assume "pc m' = off + j + n"
      moreover have "\<forall>w. f \<noteq> FJmp w" using jl(1) by simp
      ultimately show ?thesis
        unfolding body_inv_def using here m' keep by (simp add: add.assoc)
    next
      assume a: "int (pc m') = int (off + j + n) + sint w"
      then have "pc m' = 25" using tg jl(3) by (simp add: add.assoc)
      then show ?thesis using m'(2) keep by (simp add: exit_inv_def)
    qed
  qed
qed

lemma pro_decode:
  "decode (START @ [0xeb, 0x09] @ EXIT @ rest) 0 = Some (Push R12, 2)"
  "decode (START @ [0xeb, 0x09] @ EXIT @ rest) 2 = Some (Push R13, 2)"
  "decode (START @ [0xeb, 0x09] @ EXIT @ rest) 4 = Some (Push R14, 2)"
  "decode (START @ [0xeb, 0x09] @ EXIT @ rest) 6 = Some (Push RBP, 1)"
  "decode (START @ [0xeb, 0x09] @ EXIT @ rest) 7 = Some (Push RBX, 1)"
  "decode (START @ [0xeb, 0x09] @ EXIT @ rest) 8 = Some (MovReg RDI R12, 3)"
  "decode (START @ [0xeb, 0x09] @ EXIT @ rest) 11 = Some (MovReg RSI R13, 3)"
  "decode (START @ [0xeb, 0x09] @ EXIT @ rest) 14 = Some (MovReg RDX R14, 3)"
  "decode (START @ [0xeb, 0x09] @ EXIT @ rest) 17 = Some (MovReg RCX RBP, 3)"
  "decode (START @ [0xeb, 0x09] @ EXIT @ rest) 20 = Some (MovReg R8 RBX, 3)"
  "decode (START @ [0xeb, 0x09] @ EXIT @ rest) 23 = Some (JmpRel 9, 2)"
  by (simp_all add: decode_defs START_def EXIT_def)

lemma epi_decode:
  "decode (START @ [0xeb, 0x09] @ EXIT @ rest) 25 = Some (Pop RBX, 1)"
  "decode (START @ [0xeb, 0x09] @ EXIT @ rest) 26 = Some (Pop RBP, 1)"
  "decode (START @ [0xeb, 0x09] @ EXIT @ rest) 27 = Some (Pop R14, 2)"
  "decode (START @ [0xeb, 0x09] @ EXIT @ rest) 29 = Some (Pop R13, 2)"
  "decode (START @ [0xeb, 0x09] @ EXIT @ rest) 31 = Some (Pop R12, 2)"
  "decode (START @ [0xeb, 0x09] @ EXIT @ rest) 33 = Some (Ret, 1)"
  by (simp_all add: decode_defs START_def EXIT_def)

lemma layout_prefix:
  assumes "run_layout C S"
  shows "C = START @ [0xeb, 0x09] @ EXIT @ drop 34 C"
proof -
  have "take 34 C = START @ [0xeb, 0x09] @ EXIT" using assms by (simp add: run_layout_def)
  then show ?thesis using append_take_drop_id[of 34 C] by (metis append.assoc)
qed

lemma entry_step:
  assumes L: "run_layout C S" and I: "entry_inv caps m" and st: "step caps C m = Next m'"
  shows "entry_inv caps m' \<or> body_inv caps S m'"
proof -
  note C = layout_prefix[OF L]
  note d = pro_decode[of "drop 34 C", folded C]
  from I obtain k where k: "k < 11" "pc m = [0, 2, 4, 6, 7, 8, 11, 14, 17, 20, 23] ! k"
    "length (stack m) = min k 5"
    "if k \<le> 5 then regs m RDI = write_fn caps else regs m R12 = write_fn caps"
    "if k \<le> 7 then regs m RDX = read_fn caps else regs m R14 = read_fn caps"
    unfolding entry_inv_def by blast
  from k(1) have "k = 0 \<or> k = 1 \<or> k = 2 \<or> k = 3 \<or> k = 4 \<or> k = 5 \<or> k = 6 \<or> k = 7 \<or>
      k = 8 \<or> k = 9 \<or> k = 10" by arith
  then consider "k = 0" | "k = 1" | "k = 2" | "k = 3" | "k = 4" | "k = 5" | "k = 6"
    | "k = 7" | "k = 8" | "k = 9" | "k = 10" by blast
  then show ?thesis
  proof cases
    case 1
    then have "m' = m\<lparr>pc := 2, stack := regs m R12 # stack m\<rparr>"
      using st k d by (simp add: step_def exec_def)
    then show ?thesis unfolding entry_inv_def using k 1 by (intro disjI1 exI[of _ 1]) simp
  next
    case 2
    then have "m' = m\<lparr>pc := 4, stack := regs m R13 # stack m\<rparr>"
      using st k d by (simp add: step_def exec_def)
    then show ?thesis unfolding entry_inv_def using k 2 by (intro disjI1 exI[of _ 2]) simp
  next
    case 3
    then have "m' = m\<lparr>pc := 6, stack := regs m R14 # stack m\<rparr>"
      using st k d by (simp add: step_def exec_def)
    then show ?thesis unfolding entry_inv_def using k 3 by (intro disjI1 exI[of _ 3]) simp
  next
    case 4
    then have "m' = m\<lparr>pc := 7, stack := regs m RBP # stack m\<rparr>"
      using st k d by (simp add: step_def exec_def)
    then show ?thesis unfolding entry_inv_def using k 4 by (intro disjI1 exI[of _ 4]) simp
  next
    case 5
    then have "m' = m\<lparr>pc := 8, stack := regs m RBX # stack m\<rparr>"
      using st k d by (simp add: step_def exec_def)
    then show ?thesis unfolding entry_inv_def using k 5 by (intro disjI1 exI[of _ 5]) simp
  next
    case 6
    then have "m' = set_reg R12 (regs m RDI) (m\<lparr>pc := 11\<rparr>)"
      using st k d by (simp add: step_def exec_def)
    then show ?thesis unfolding entry_inv_def using k 6
      by (intro disjI1 exI[of _ 6]) (simp add: set_reg_def)
  next
    case 7
    then have "m' = set_reg R13 (regs m RSI) (m\<lparr>pc := 14\<rparr>)"
      using st k d by (simp add: step_def exec_def)
    then show ?thesis unfolding entry_inv_def using k 7
      by (intro disjI1 exI[of _ 7]) (simp add: set_reg_def)
  next
    case 8
    then have "m' = set_reg R14 (regs m RDX) (m\<lparr>pc := 17\<rparr>)"
      using st k d by (simp add: step_def exec_def)
    then show ?thesis unfolding entry_inv_def using k 8
      by (intro disjI1 exI[of _ 8]) (simp add: set_reg_def)
  next
    case 9
    then have "m' = set_reg RBP (regs m RCX) (m\<lparr>pc := 20\<rparr>)"
      using st k d by (simp add: step_def exec_def)
    then show ?thesis unfolding entry_inv_def using k 9
      by (intro disjI1 exI[of _ 9]) (simp add: set_reg_def)
  next
    case 10
    then have "m' = set_reg RBX (regs m R8) (m\<lparr>pc := 23\<rparr>)"
      using st k d by (simp add: step_def exec_def)
    then show ?thesis unfolding entry_inv_def using k 10
      by (intro disjI1 exI[of _ 10]) (simp add: set_reg_def)
  next
    case 11
    then have m': "m' = m\<lparr>pc := 34\<rparr>"
      using st k d by (simp add: step_def exec_def jump_def)
    obtain f where "(34, f) \<in> S" using L unfolding run_layout_def by blast
    then have "\<exists>off f j. (off, f) \<in> S \<and> j \<in> set (frag_starts f) \<and> 34 = off + j"
      using zero_start[of f] by (metis add.right_neutral)
    then show ?thesis unfolding body_inv_def using k 11 m' by simp
  qed
qed

lemma exit_step:
  assumes L: "run_layout C S" and I: "exit_inv m" and st: "step caps C m = Next m'"
  shows "exit_inv m'"
proof -
  note C = layout_prefix[OF L]
  note d = epi_decode[of "drop 34 C", folded C]
  from I consider "pc m = 25" "length (stack m) = 5" | "pc m = 26" | "pc m = 27" | "pc m = 29"
    | "pc m = 31" | "pc m = 33"
    unfolding exit_inv_def by auto
  then show ?thesis
  proof cases
    case 1
    then show ?thesis using st d
      by (cases "stack m") (auto simp: step_def exec_def exit_inv_def set_reg_def)
  next
    case 2
    then show ?thesis using st d
      by (cases "stack m") (auto simp: step_def exec_def exit_inv_def set_reg_def)
  next
    case 3
    then show ?thesis using st d
      by (cases "stack m") (auto simp: step_def exec_def exit_inv_def set_reg_def)
  next
    case 4
    then show ?thesis using st d
      by (cases "stack m") (auto simp: step_def exec_def exit_inv_def set_reg_def)
  next
    case 5
    then show ?thesis using st d
      by (cases "stack m") (auto simp: step_def exec_def exit_inv_def set_reg_def)
  next
    case 6
    then show ?thesis using st d
      by (auto simp: step_def exec_def split: if_splits)
  qed
qed

lemma run_inv_step:
  assumes "run_layout C S" and "run_inv caps S m" and "step caps C m = Next m'"
  shows "run_inv caps S m'"
  using assms entry_step[of C S caps m m'] body_step[of C S caps m m'] exit_step[of C S m caps m']
  unfolding run_inv_def by blast

lemma run_inv_steps:
  assumes "run_layout C S"
  shows "run_inv caps S m \<Longrightarrow> steps n caps C m = Next m' \<Longrightarrow> run_inv caps S m'"
proof (induction n arbitrary: m)
  case 0
  then show ?case by simp
next
  case (Suc n)
  then obtain m1 where m1: "step caps C m = Next m1" "steps n caps C m1 = Next m'"
    by (cases "step caps C m") simp_all
  from run_inv_step[OF assms Suc.prems(1) m1(1)] Suc.IH m1(2) show ?case by blast
qed

lemma entry_run_inv: "run_inv caps S (entry caps callers memory tape host_io)"
  unfolding run_inv_def entry_inv_def entry_def
  by (intro disjI1 exI[of _ 0]) simp

lemma epilogue_run:
  assumes L: "run_layout C S" and pc: "pc m = 25" and st: "length (stack m) = 5"
  shows "\<exists>m'. steps 6 caps C m = Done m' \<and> mem m' = mem m \<and> io m' = io m"
proof -
  note C = layout_prefix[OF L]
  note d = epi_decode[of "drop 34 C", folded C]
  obtain a b c d' e where s: "stack m = [a, b, c, d', e]"
    using st by (auto simp: length_Suc_conv eval_nat_numeral)
  have six: "(6 :: nat) = Suc (Suc (Suc (Suc (Suc (Suc 0)))))" by simp
  show ?thesis
    unfolding six using pc s d
    by (simp add: step_def exec_def set_reg_def)
qed

lemma steps_add:
  "steps a caps C m = Next m1 \<Longrightarrow> steps (a + b) caps C m = steps b caps C m1"
proof (induction a arbitrary: m)
  case 0
  then show ?case by simp
next
  case (Suc a)
  then show ?case by (cases "step caps C m") simp_all
qed

lemma write_call_exits:
  assumes L: "run_layout C S" and I: "run_inv caps S m"
    and call: "decode C (pc m) = Some (CallReg R12, k)"
    and w: "do_write caps (io m) (regs m RDI) (ucast (regs m RSI)) = (res, io')"
    and fail: "(ucast res :: byte) = 0"
  shows "\<exists>m1 m2 m3 m9.
     step caps C m = Next m1 \<and> decode C (pc m1) = Some (CmpImm RAX 1, 4) \<and>
     step caps C m1 = Next m2 \<and> (\<exists>d. decode C (pc m2) = Some (Jne d, 6)) \<and>
     step caps C m2 = Next m3 \<and> pc m3 = 25 \<and> mem m3 = mem m \<and> io m3 = io' \<and>
     steps 6 caps C m3 = Done m9 \<and> mem m9 = mem m \<and> io m9 = io'"
proof -
  note C = layout_prefix[OF L]
  note dp = pro_decode[of "drop 34 C", folded C]
  note de = epi_decode[of "drop 34 C", folded C]
  have "\<not> entry_inv caps m"
  proof
    assume "entry_inv caps m"
    then obtain j where j: "j < 11" "pc m = [0, 2, 4, 6, 7, 8, 11, 14, 17, 20, 23] ! j"
      unfolding entry_inv_def by blast
    from j(1) have "j = 0 \<or> j = 1 \<or> j = 2 \<or> j = 3 \<or> j = 4 \<or> j = 5 \<or> j = 6 \<or> j = 7 \<or>
      j = 8 \<or> j = 9 \<or> j = 10" by arith
    then show False using j(2) call dp by auto
  qed
  moreover have "\<not> exit_inv m"
    using call de by (auto simp: exit_inv_def)
  ultimately have B: "body_inv caps S m" using I by (simp add: run_inv_def)
  then obtain off f j where site: "(off, f) \<in> S" "j \<in> set (frag_starts f)" "pc m = off + j"
    and keep: "regs m R12 = write_fn caps" "length (stack m) = 5"
    unfolding body_inv_def by blast
  have at: "at_frag C off f" and ok: "site_ok S off f"
    using L site(1) unfolding run_layout_def by force+
  obtain i n where dec: "decode C (off + j) = Some (i, n)" and iok: "instr_ok f j i n"
    using frag_instr_ok[OF site(2)] at_frag_decode[OF at] by metis
  have "i = CallReg R12" using dec call site(3) by simp
  then obtain wd where f: "f = FWrite wd" and j: "j = 7"
    using iok by (auto simp: instr_ok_def)
  define rest where "rest = drop (off + length (frag_bytes f)) C"
  have d7: "decode C (off + 7) = Some (CallReg R12, 3)"
    and d10: "decode C (off + 10) = Some (CmpImm RAX 1, 4)"
    and d14: "decode C (off + 14) = Some (Jne (sint wd), 6)"
    using at_frag_decode[OF at] frag_decode_FWrite[of wd] unfolding f by metis+
  have tgt: "int (off + 20) + sint wd = 25"
    using ok f by (simp add: site_ok_def)
  have ne: "res \<noteq> 1"
  proof
    assume "res = 1"
    then have "(ucast res :: byte) = 1" by simp
    then show False using fail by simp
  qed
  define m1 where "m1 = set_reg RAX res (m\<lparr>pc := off + 10, io := io'\<rparr>)"
  define m2 where "m2 = m1\<lparr>pc := off + 14, zf := False, lt := (sint res < 1)\<rparr>"
  define m3 where "m3 = m2\<lparr>pc := 25\<rparr>"
  have s1: "step caps C m = Next m1"
    using d7 site(3) j keep(1) w by (simp add: step_def exec_def m1_def add.commute)
  have s2: "step caps C m1 = Next m2"
    using d10 ne by (simp add: step_def exec_def m1_def m2_def set_reg_def add.commute)
  have s3: "step caps C m2 = Next m3"
    using d14 tgt by (simp add: step_def exec_def jump_def m1_def m2_def m3_def set_reg_def add.commute)
  have p3: "pc m3 = 25" "length (stack m3) = 5" "mem m3 = mem m" "io m3 = io'"
    using keep(2) by (simp_all add: m1_def m2_def m3_def set_reg_def)
  from epilogue_run[OF L p3(1) p3(2), of caps]
  obtain m9 where m9: "steps 6 caps C m3 = Done m9" "mem m9 = mem m3" "io m9 = io m3" by blast
  have "decode C (pc m1) = Some (CmpImm RAX 1, 4)" using d10 by (simp add: m1_def set_reg_def)
  moreover have "\<exists>d. decode C (pc m2) = Some (Jne d, 6)" using d14 by (simp add: m2_def)
  ultimately show ?thesis using s1 s2 s3 p3 m9 by (intro exI[of _ m1] exI[of _ m2] exI[of _ m3] exI[of _ m9]) simp
qed

lemma loaded_code_init:
  assumes "loaded_code (init h this source) = Some code"
  shows "\<exists>code1. generate_sequence_code 25 source
      (START @ [0xeb] @ [word_of_nat (length EXIT)] @ EXIT) = Inr code1 \<and>
      code = add_jmp_to_exit 25 code1"
proof (cases "generate_sequence_code 25 source (START @ [0xeb] @ [word_of_nat (length EXIT)] @ EXIT)")
  case (Inl e)
  then have "effects (init h this source) = []"
    unfolding init_unfold by (cases e) simp_all
  then show ?thesis using assms by (simp add: loaded_code_def)
next
  case (Inr code1)
  then have "code = add_jmp_to_exit 25 code1"
    using assms unfolding init_unfold
    by (simp add: loaded_code_def Let_def split: if_splits)
  then show ?thesis using Inr by blast
qed

lemma steps_Suc_Next:
  "step caps C m = Next m1 \<Longrightarrow> steps (Suc k) caps C m = steps k caps C m1"
  by simp

lemma decode_branch_bytes:
  "decode_bytes (0x0f # 0x85 # bytes_of w @ rest) = Some (Jne (sint w), 6)"
  "decode_bytes (0x0f # 0x8c # bytes_of w @ rest) = Some (Jl (sint w), 6)"
  "decode_bytes (0xe9 # bytes_of w @ rest) = Some (JmpRel (sint w), 5)"
  using le32_jcc[of 15 133 w rest] le32_jcc[of 15 140 w rest] le32_jmp[of 233 w rest]
  by (simp_all add: decode_bytes_def orelse_def decode1_def decode2_def
      decode3_def decode4_def decode5_def decode6_def bytes_of_def)

lemma decode_patched:
  "decode (add_jne_to_exit target code) (length code) =
     Some (Jne (sint (le32 (add_jne_to_exit target code) (length code + 2))), 6)"
  "decode (add_jl_to_exit target code) (length code) =
     Some (Jl (sint (le32 (add_jl_to_exit target code) (length code + 2))), 6)"
  "decode (add_jmp_to_offset target code) (length code) =
     Some (JmpRel (sint (le32 (add_jmp_to_offset target code) (length code + 1))), 5)"
proof -
  have rd: "le32 ((code @ op) @ bytes_of w) (length code + length op) = w" for op w
    using le32_append[of "code @ op" "bytes_of w" 0] by (simp add: le32_bytes)
  show "decode (add_jne_to_exit target code) (length code) =
     Some (Jne (sint (le32 (add_jne_to_exit target code) (length code + 2))), 6)"
    using rd[of "[0x0f, 0x85]"] decode_branch_bytes(1)[of _ "[]"]
    by (simp add: add_jne_to_exit_eq decode_def)
  show "decode (add_jl_to_exit target code) (length code) =
     Some (Jl (sint (le32 (add_jl_to_exit target code) (length code + 2))), 6)"
    using rd[of "[0x0f, 0x8c]"] decode_branch_bytes(2)[of _ "[]"]
    by (simp add: add_jl_to_exit_eq decode_def)
  show "decode (add_jmp_to_offset target code) (length code) =
     Some (JmpRel (sint (le32 (add_jmp_to_offset target code) (length code + 1))), 5)"
    using rd[of "[0xe9]"] decode_branch_bytes(3)[of _ "[]"]
    by (simp add: add_jmp_to_offset_eq decode_def)
qed

section \<open>The specified properties\<close>

text \<open>
  C6. \<open>find_loop_end\<close> tracks a nesting depth that starts at 1, goes up on every opening
  bracket and down on every closing bracket, and returns the offset of the character at
  which the depth first reaches 0; it reports not-found exactly when the range ends
  before the depth reaches 0.
\<close>

theorem find_loop_end_first_zero_depth:
  "(find_loop_end r = Some e \<longleftrightarrow>
      1 \<le> e \<and> e < length r \<and> depth_at r e = 0 \<and> (\<forall>k<e. depth_at r k \<noteq> 0)) \<and>
   (find_loop_end r = None \<longleftrightarrow> (\<forall>k<length r. depth_at r k \<noteq> 0))"
proof
  have "find_loop_end r = Some e \<longleftrightarrow>
     (\<exists>n < length (drop 1 r). e = 1 + n \<and> depth_at r (Suc n) = 0 \<and>
        (\<forall>k \<le> n. depth_at r k \<noteq> 0))"
    unfolding find_loop_end_def depth_at_def by (rule find_loop_end_loop_Some) simp
  also have "\<dots> \<longleftrightarrow> 1 \<le> e \<and> e < length r \<and> depth_at r e = 0 \<and> (\<forall>k<e. depth_at r k \<noteq> 0)"
  proof
    assume "\<exists>n < length (drop 1 r). e = 1 + n \<and> depth_at r (Suc n) = 0 \<and>
        (\<forall>k \<le> n. depth_at r k \<noteq> 0)"
    then obtain n where n: "n < length (drop 1 r)" "e = 1 + n" "depth_at r (Suc n) = 0"
      "\<forall>k \<le> n. depth_at r k \<noteq> 0" by blast
    have "\<forall>k<e. depth_at r k \<noteq> 0" using n(2,4) by (simp add: less_Suc_eq_le)
    then show "1 \<le> e \<and> e < length r \<and> depth_at r e = 0 \<and> (\<forall>k<e. depth_at r k \<noteq> 0)"
      using n by simp
  next
    assume a: "1 \<le> e \<and> e < length r \<and> depth_at r e = 0 \<and> (\<forall>k<e. depth_at r k \<noteq> 0)"
    then obtain n where e: "e = Suc n" by (cases e) auto
    have "\<forall>k \<le> n. depth_at r k \<noteq> 0" using a e by (simp add: less_Suc_eq_le)
    then show "\<exists>n < length (drop 1 r). e = 1 + n \<and> depth_at r (Suc n) = 0 \<and>
        (\<forall>k \<le> n. depth_at r k \<noteq> 0)"
      using a e by (intro exI[of _ n]) auto
  qed
  finally show "find_loop_end r = Some e \<longleftrightarrow>
      1 \<le> e \<and> e < length r \<and> depth_at r e = 0 \<and> (\<forall>k<e. depth_at r k \<noteq> 0)" .
next
  have "find_loop_end r = None \<longleftrightarrow> (\<forall>k \<le> length (drop 1 r). depth_at r k \<noteq> 0)"
    unfolding find_loop_end_def depth_at_def by (rule find_loop_end_loop_None) simp
  also have "\<dots> \<longleftrightarrow> (\<forall>k<length r. depth_at r k \<noteq> 0)"
  proof (cases r)
    case Nil
    then show ?thesis by (simp add: depth_at_def)
  next
    case (Cons c cs)
    then show ?thesis by (simp add: less_Suc_eq_le)
  qed
  finally show "find_loop_end r = None \<longleftrightarrow> (\<forall>k<length r. depth_at r k \<noteq> 0)" .
qed

theorem find_loop_end_first_zero_depth_witness:
  "find_loop_end ''[+[-]]>'' = Some 5 \<and> depth_at ''[+[-]]>'' 5 = 0 \<and>
   depth_at ''[+[-]]>'' 4 \<noteq> 0 \<and> depth_at ''[+[-]]>'' 2 \<noteq> 0 \<and>
   find_loop_end ''[[+]'' = None \<and> depth_at ''[[+]'' 3 \<noteq> 0"
proof -
  have h1: "find_loop_end ''[+[-]]>'' = Some 5" by (simp add: find_loop_end_def)
  have h2: "find_loop_end ''[[+]'' = None" by (simp add: find_loop_end_def)
  show ?thesis
    using find_loop_end_first_zero_depth [of "''[+[-]]>''" 5]
      find_loop_end_first_zero_depth [of "''[[+]''" 0] h1 h2
    by simp
qed

text \<open>
  C4. Every relocation written by the patcher (the conditional jumps to the exit after a
  write and after a read, and the unconditional jump to a known offset) puts, after its
  opcode, the four bytes that read lowest byte first are the 32-bit two's-complement
  value of \<open>target - (field + 4)\<close>, where \<open>field\<close> is the offset of the displacement field;
  the processor decodes opcode and field as \<^verbatim>\<open>jne\<close>, \<^verbatim>\<open>jl\<close> and \<^verbatim>\<open>jmp\<close> with the signed value of
  the field as displacement, and that value is exactly the difference whenever the
  difference fits in 32 bits.
\<close>

theorem relocation_displacement:
  "take (length code + 2) (add_jne_to_exit target code) = code @ [0x0f, 0x85] \<and>
   length (add_jne_to_exit target code) = length code + 2 + 4 \<and>
   le32 (add_jne_to_exit target code) (length code + 2) =
     word_of_int (target - (int (length code + 2) + 4)) \<and>
   take (length code + 2) (add_jl_to_exit target code) = code @ [0x0f, 0x8c] \<and>
   length (add_jl_to_exit target code) = length code + 2 + 4 \<and>
   le32 (add_jl_to_exit target code) (length code + 2) =
     word_of_int (target - (int (length code + 2) + 4)) \<and>
   take (length code + 1) (add_jmp_to_offset target code) = code @ [0xe9] \<and>
   length (add_jmp_to_offset target code) = length code + 1 + 4 \<and>
   le32 (add_jmp_to_offset target code) (length code + 1) =
     word_of_int (target - (int (length code + 1) + 4)) \<and>
   decode (add_jne_to_exit target code) (length code) =
     Some (Jne (sint (le32 (add_jne_to_exit target code) (length code + 2))), 6) \<and>
   decode (add_jl_to_exit target code) (length code) =
     Some (Jl (sint (le32 (add_jl_to_exit target code) (length code + 2))), 6) \<and>
   decode (add_jmp_to_offset target code) (length code) =
     Some (JmpRel (sint (le32 (add_jmp_to_offset target code) (length code + 1))), 5) \<and>
   (- (2 ^ 31) \<le> target - (int (length code + 2) + 4) \<and>
    target - (int (length code + 2) + 4) < 2 ^ 31 \<longrightarrow>
      sint (le32 (add_jne_to_exit target code) (length code + 2)) =
        target - (int (length code + 2) + 4) \<and>
      sint (le32 (add_jl_to_exit target code) (length code + 2)) =
        target - (int (length code + 2) + 4)) \<and>
   (- (2 ^ 31) \<le> target - (int (length code + 1) + 4) \<and>
    target - (int (length code + 1) + 4) < 2 ^ 31 \<longrightarrow>
      sint (le32 (add_jmp_to_offset target code) (length code + 1)) =
        target - (int (length code + 1) + 4))"
proof -
  define d2 where "d2 = target - (int (length code + 2) + 4)"
  define d1 where "d1 = target - (int (length code + 1) + 4)"
  have rd: "le32 ((code @ op) @ bytes_of w) (length code + length op) = w" for op w
    using le32_append[of "code @ op" "bytes_of w" 0] by (simp add: le32_bytes)
  have jne: "le32 (add_jne_to_exit target code) (length code + 2) = word_of_int d2"
    using rd[of "[0x0f, 0x85]"] by (simp add: add_jne_to_exit_eq relative_address_eq d2_def)
  have jl: "le32 (add_jl_to_exit target code) (length code + 2) = word_of_int d2"
    using rd[of "[0x0f, 0x8c]"] by (simp add: add_jl_to_exit_eq relative_address_eq d2_def)
  have jmp: "le32 (add_jmp_to_offset target code) (length code + 1) = word_of_int d1"
    using rd[of "[0xe9]"] by (simp add: add_jmp_to_offset_eq relative_address_eq d1_def)
  have exact: "sint (word_of_int d :: 32 word) = d" if "- (2 ^ 31) \<le> d \<and> d < 2 ^ 31" for d
    using that by (simp add: sint_sbintrunc' signed_take_bit_int_eq_self)
  have s2: "- (2 ^ 31) \<le> d2 \<and> d2 < 2 ^ 31 \<longrightarrow>
      sint (le32 (add_jne_to_exit target code) (length code + 2)) = d2 \<and>
      sint (le32 (add_jl_to_exit target code) (length code + 2)) = d2"
    unfolding jne jl using exact by blast
  have s1: "- (2 ^ 31) \<le> d1 \<and> d1 < 2 ^ 31 \<longrightarrow>
      sint (le32 (add_jmp_to_offset target code) (length code + 1)) = d1"
    unfolding jmp using exact by blast
  have t1: "take (length code + 2) (add_jne_to_exit target code) = code @ [0x0f, 0x85]"
    and l1: "length (add_jne_to_exit target code) = length code + 2 + 4"
    by (simp_all add: add_jne_to_exit_eq)
  have t2: "take (length code + 2) (add_jl_to_exit target code) = code @ [0x0f, 0x8c]"
    and l2: "length (add_jl_to_exit target code) = length code + 2 + 4"
    by (simp_all add: add_jl_to_exit_eq)
  have t3: "take (length code + 1) (add_jmp_to_offset target code) = code @ [0xe9]"
    and l3: "length (add_jmp_to_offset target code) = length code + 1 + 4"
    by (simp_all add: add_jmp_to_offset_eq)
  show ?thesis
    unfolding d2_def[symmetric] d1_def[symmetric]
    using t1 l1 jne t2 l2 jl t3 l3 jmp s2 s1 decode_patched by blast
qed

theorem relocation_displacement_witness:
  "add_jne_to_exit 25 EXIT = EXIT @ [0x0f, 0x85, 0x0a, 0, 0, 0] \<and>
   sint (le32 (add_jne_to_exit 25 EXIT) (length EXIT + 2)) = 25 - (int (length EXIT + 2) + 4) \<and>
   add_jmp_to_offset 0 EXIT = EXIT @ [0xe9, 0xf2, 0xff, 0xff, 0xff] \<and>
   sint (le32 (add_jmp_to_offset 0 EXIT) (length EXIT + 1)) = 0 - (int (length EXIT + 1) + 4)"
proof -
  have "add_jne_to_exit 25 EXIT = EXIT @ [0x0f, 0x85, 0x0a, 0, 0, 0]"
    by (simp add: add_jne_to_exit_def relative_address_def bytes_of_def EXIT_def Let_def)
  moreover have "add_jmp_to_offset 0 EXIT = EXIT @ [0xe9, 0xf2, 0xff, 0xff, 0xff]"
    by (simp add: add_jmp_to_offset_def relative_address_def bytes_of_def EXIT_def Let_def)
  ultimately show ?thesis
    using relocation_displacement [of EXIT 25] relocation_displacement [of EXIT 0]
    by (simp add: EXIT_def)
qed


text \<open>
  C5. Given the code of the loop body, \<open>generate_loop_code\<close> leaves in the buffer, in this
  order, the zero test of the tape byte (\<^verbatim>\<open>cmpb $0x0,(%rbx)\<close>), the skip branch, the body and
  the jump back. The six reserved bytes are replaced once, by the branch-if-zero (\<^verbatim>\<open>je\<close>)
  whose displacement, counted from the end of the branch, leads to the offset just after
  the jump back, the end of the buffer; the jump back leads to the zero test. The buffer is
  shorter than \<open>2 ^ 31\<close> bytes, the range of the \<^verbatim>\<open>int\<close> offsets of the source.
\<close>

theorem generate_loop_code_layout:
  assumes "length code + 14 + 20 * length (drop 1 r) < 2 ^ 31"
    and "generate_sequence_code ex (drop 1 r) (code @ LOOP_CMP @ placeholder) = Inr code3"
  shows "\<exists>body rel_skip rel_back code'.
     code3 = code @ LOOP_CMP @ placeholder @ body \<and>
     code' = code @ LOOP_CMP @ ([0x0f, 0x84] @ bytes_of rel_skip) @ body @
       ([0xe9] @ bytes_of rel_back) \<and>
     generate_loop_code ex r code = Inr code' \<and>
     decode code' (length code) = Some (CmpbMem 0, 3) \<and>
     decode code' (length code + 3) = Some (Je (sint rel_skip), 6) \<and>
     decode code' (length code + 9 + length body) = Some (JmpRel (sint rel_back), 5) \<and>
     int (length code + 9) + sint rel_skip = int (length code') \<and>
     int (length code') + sint rel_back = int (length code)"
proof -
  from generate_loop_code_shape[OF assms]
  obtain body rel_skip rel_back where sh: "code3 = code @ LOOP_CMP @ placeholder @ body"
    "generate_loop_code ex r code =
       Inr (code @ LOOP_CMP @ ([0x0f, 0x84] @ bytes_of rel_skip) @ body @ ([0xe9] @ bytes_of rel_back))"
    "int (length (code @ LOOP_CMP) + 6) + sint rel_skip =
       int (length (code @ LOOP_CMP @ placeholder @ body @ ([0xe9] @ bytes_of rel_back)))"
    "int (length (code @ LOOP_CMP @ placeholder @ body @ ([0xe9] @ bytes_of rel_back))) + sint rel_back =
       int (length code)"
    by blast
  define code' where
    "code' = code @ LOOP_CMP @ ([0x0f, 0x84] @ bytes_of rel_skip) @ body @ ([0xe9] @ bytes_of rel_back)"
  have len: "length code' = length code + 9 + length body + 5"
    by (simp add: code'_def LOOP_CMP_def)
  have c1: "code' = code @ frag_bytes (FLoop rel_skip) @ (body @ [0xe9] @ bytes_of rel_back)"
    by (simp add: code'_def)
  have d0: "decode code' (length code) = Some (CmpbMem 0, 3)"
    unfolding c1 using decode_shift[of code _ 0] frag_decode_FLoop(1) by (metis add.right_neutral)
  have d3: "decode code' (length code + 3) = Some (Je (sint rel_skip), 6)"
    unfolding c1 using decode_shift[of code _ 3] frag_decode_FLoop(2) by metis
  have c2: "code' = (code @ LOOP_CMP @ [0x0f, 0x84] @ bytes_of rel_skip @ body) @
      frag_bytes (FJmp rel_back) @ []"
    by (simp add: code'_def)
  have l2: "length (code @ LOOP_CMP @ [0x0f, 0x84] @ bytes_of rel_skip @ body) =
      length code + 9 + length body"
    by (simp add: LOOP_CMP_def)
  have dj: "decode code' (length code + 9 + length body) = Some (JmpRel (sint rel_back), 5)"
    using decode_shift[of "code @ LOOP_CMP @ [0x0f, 0x84] @ bytes_of rel_skip @ body"
        "frag_bytes (FJmp rel_back) @ []" 0] frag_decode_FJmp[of rel_back "[]"]
    unfolding c2[symmetric] l2 by simp
  have s1: "int (length code + 9) + sint rel_skip = int (length code')"
    using sh(3) by (simp add: len LOOP_CMP_def placeholder_def)
  have s2: "int (length code') + sint rel_back = int (length code)"
    using sh(4) by (simp add: len LOOP_CMP_def placeholder_def)
  have g: "generate_loop_code ex r code = Inr code'"
    using sh(2) unfolding code'_def .
  show ?thesis
    using sh(1) code'_def g d0 d3 dj s1 s2 by blast
qed

theorem generate_loop_code_layout_witness:
  "\<exists>body rel_skip rel_back code'.
     LOOP_CMP @ placeholder @ SUBTRACT = [] @ LOOP_CMP @ placeholder @ body \<and>
     code' = [] @ LOOP_CMP @ ([0x0f, 0x84] @ bytes_of rel_skip) @ body @
       ([0xe9] @ bytes_of rel_back) \<and>
     generate_loop_code 25 ''[-'' [] = Inr code' \<and>
     decode code' (length ([] :: code)) = Some (CmpbMem 0, 3) \<and>
     decode code' (length ([] :: code) + 3) = Some (Je (sint rel_skip), 6) \<and>
     decode code' (length ([] :: code) + 9 + length body) = Some (JmpRel (sint rel_back), 5) \<and>
     int (length ([] :: code) + 9) + sint rel_skip = int (length code') \<and>
     int (length code') + sint rel_back = int (length ([] :: code))"
proof -
  have h1: "length ([] :: code) + 14 + 20 * length (drop 1 ''[-'') < 2 ^ 31" by simp
  have h2: "generate_sequence_code 25 (drop 1 ''[-'') ([] @ LOOP_CMP @ placeholder) =
      Inr (LOOP_CMP @ placeholder @ SUBTRACT)"
    by (simp add: generate_simple_code_def generate_subtract_code_def)
  show ?thesis by (rule generate_loop_code_layout [OF h1 h2])
qed

text \<open>
  C7. For a source with an opening bracket that has no matching closing bracket, \<open>init\<close>
  returns failure with the diagnostic of the unmatched bracket, makes no call to the
  operating system and leaves \<^verbatim>\<open>executable_\<close> as it was, \<^verbatim>\<open>NULL\<close> for a newly constructed
  object; a failure of the sequence generation inside \<open>generate_loop_code\<close> is the result of
  \<open>generate_loop_code\<close>. The source is short enough for the buffer offsets to fit an
  \<^verbatim>\<open>int\<close>.
\<close>

theorem unmatched_open_bracket_fails:
  assumes "0 < open_brackets 0 source" and "34 + 20 * length source < 2 ^ 31"
  shows "returned (init h this source) = Returned False \<and>
         effects (init h this source) = [] \<and>
         executable (program (init h this source)) = executable this \<and>
         executable (program (init h (BrainfuckProgram_new u) source)) = 0 \<and>
         (\<exists>text. diagnostics (init h this source) = [UnableToFindLoopEnd text]) \<and>
         (generate_sequence_code ex (drop 1 r) (code @ LOOP_CMP @ placeholder) = Inl e \<longrightarrow>
            generate_loop_code ex r code = Inl e)"
proof -
  let ?c0 = "START @ [0xeb] @ [word_of_nat (length EXIT)] @ EXIT"
  note sz = init_code_bound[OF assms(2)]
  have "\<not> (\<exists>code'. generate_sequence_code 25 source ?c0 = Inr code')"
    using gen_succeeds_iff(1)[OF sz, of 25] assms(1) by simp
  moreover have "generate_sequence_code 25 source ?c0 \<noteq> Inl OutOfRange"
    using gen_frame(1)[OF sz, of 25] by (rule ok_from_no_throw)
  ultimately obtain rest where t: "generate_sequence_code 25 source ?c0 = Inl (LoopEndNotFound rest)"
    by (cases "generate_sequence_code 25 source ?c0") (auto intro: gen_error.exhaust)
  have i: "init h this source = \<lparr>returned = Returned False, program = this\<lparr>exit_offset := 25\<rparr>,
              diagnostics = [UnableToFindLoopEnd rest], effects = []\<rparr>" for h this
    unfolding init_unfold t by simp
  have p1: "generate_sequence_code ex (drop 1 r) (code @ LOOP_CMP @ placeholder) = Inl e \<longrightarrow>
            generate_loop_code ex r code = Inl e"
    by (simp add: placeholder_def Let_def)
  show ?thesis unfolding i using p1 by (simp add: BrainfuckProgram_new_def)
qed

theorem unmatched_open_bracket_fails_witness:
  "returned (init \<lparr>pagesize = 4096, mmap_result = 0x7f0000000000, mprotect_result = 0\<rparr>
      (BrainfuckProgram_new 0) ''+[[-]'') = Returned False \<and>
   effects (init \<lparr>pagesize = 4096, mmap_result = 0x7f0000000000, mprotect_result = 0\<rparr>
      (BrainfuckProgram_new 0) ''+[[-]'') = [] \<and>
   executable (program (init \<lparr>pagesize = 4096, mmap_result = 0x7f0000000000, mprotect_result = 0\<rparr>
      (BrainfuckProgram_new 0) ''+[[-]'')) = 0 \<and>
   generate_sequence_code 25 (drop 1 ''[['') ([] @ LOOP_CMP @ placeholder) = Inl (LoopEndNotFound ''['') \<and>
   generate_loop_code 25 ''[['' [] = Inl (LoopEndNotFound ''['')"
proof -
  have h1: "0 < open_brackets 0 ''+[[-]''" by simp
  have h2: "34 + 20 * length ''+[[-]'' < (2::nat) ^ 31" by simp
  have h3: "generate_sequence_code 25 (drop 1 ''[['') ([] @ LOOP_CMP @ placeholder) =
      Inl (LoopEndNotFound ''['')"
    by (simp add: find_loop_end_def)
  show ?thesis
    using unmatched_open_bracket_fails [OF h1 h2,
        of "\<lparr>pagesize = 4096, mmap_result = 0x7f0000000000, mprotect_result = 0\<rparr>"
          "BrainfuckProgram_new 0" 0 25 "''[[''" "[]" "LoopEndNotFound ''[''"]
      h3
    by (simp add: BrainfuckProgram_new_def)
qed

text \<open>
  C8. For a source in which every opening bracket has its closing bracket, on a host
  whose \<^verbatim>\<open>mmap\<close> and \<^verbatim>\<open>mprotect\<close> succeed, \<open>init\<close> returns success, and the region it maps,
  fills and protects has a size that is a positive multiple of the page size and holds
  the whole buffer. The sizes fit an \<^verbatim>\<open>int\<close>.
\<close>

theorem balanced_program_builds:
  assumes "open_brackets 0 source = 0"
    and "0 < pagesize h"
    and "39 + 20 * length source + pagesize h < 2 ^ 31"
    and "mmap_result h \<noteq> 0" and "mmap_result h \<noteq> MAP_FAILED" and "mprotect_result h = 0"
  shows "returned (init h this source) = Returned True \<and>
         executable (program (init h this source)) = mmap_result h \<and>
         (\<exists>k code. 0 < k \<and> length code < k * pagesize h \<and>
            effects (init h this source) =
              [Mmap (k * pagesize h), Memmove (mmap_result h) code,
               Mprotect (mmap_result h) (k * pagesize h)])"
proof -
  let ?c0 = "START @ [0xeb] @ [word_of_nat (length EXIT)] @ EXIT"
  have sz: "length ?c0 + 20 * length source < 2 ^ 31"
    using assms(3) by (simp only: init_code_length)
  obtain code1 where c1: "generate_sequence_code 25 source ?c0 = Inr code1"
    using gen_succeeds_iff(1)[OF sz, of 25] assms(1) by blast
  obtain body where body: "code1 = ?c0 @ body" "length body \<le> 20 * length source"
    using ok_fromD[OF gen_frame(1)[OF sz] c1] by blast
  define code where "code = add_jmp_to_exit 25 code1"
  define k where "k = length code div pagesize h + 1"
  have len: "length code = 39 + length body"
    unfolding code_def add_jmp_to_exit_def add_jmp_to_offset_eq body(1)
    by (simp add: START_def EXIT_def)
  have "length code div pagesize h * pagesize h \<le> length code" by simp
  then have kb: "k * pagesize h \<le> length code + pagesize h"
    unfolding k_def by (simp add: algebra_simps)
  then have small: "k * pagesize h < 2 ^ 31" using len body(2) assms(3) by simp
  have "k * pagesize h < 2 ^ 64" using small by (rule less_trans) simp
  then have req: "int_to_size (size_to_int (k * pagesize h)) = k * pagesize h"
    unfolding size_to_int_exact[OF small] by (rule int_to_size_exact)
  have "k * pagesize h = pagesize h + length code div pagesize h * pagesize h"
    by (simp add: k_def)
  with req have req': "int_to_size (size_to_int (pagesize h + length code div pagesize h * pagesize h)) =
      k * pagesize h" by simp
  have lt: "length code < k * pagesize h"
    unfolding k_def using assms(2) by (metis Suc_eq_plus1 dividend_less_div_times mult.commute mult_Suc)
  have i: "init h this source =
      \<lparr>returned = Returned True,
       program = this\<lparr>exit_offset := 25, executable := mmap_result h\<rparr>,
       diagnostics = [],
       effects = [Mmap (k * pagesize h), Memmove (mmap_result h) code,
                  Mprotect (mmap_result h) (k * pagesize h)]\<rparr>"
    unfolding init_unfold c1 using assms(4,5,6) req'
    by (simp add: Let_def code_def[symmetric])
  have "0 < k" by (simp add: k_def)
  then show ?thesis unfolding i using lt by auto
qed

theorem balanced_program_builds_witness:
  "returned (init \<lparr>pagesize = 4096, mmap_result = 0x7f0000000000, mprotect_result = 0\<rparr>
      (BrainfuckProgram_new 0) ''+[>[-]<-]'') = Returned True \<and>
   executable (program (init \<lparr>pagesize = 4096, mmap_result = 0x7f0000000000, mprotect_result = 0\<rparr>
      (BrainfuckProgram_new 0) ''+[>[-]<-]'')) = 0x7f0000000000 \<and>
   (\<exists>k code. 0 < k \<and> length code < k * 4096 \<and>
      effects (init \<lparr>pagesize = 4096, mmap_result = 0x7f0000000000, mprotect_result = 0\<rparr>
          (BrainfuckProgram_new 0) ''+[>[-]<-]'') =
        [Mmap (k * 4096), Memmove 0x7f0000000000 code, Mprotect 0x7f0000000000 (k * 4096)])"
proof -
  let ?h = "\<lparr>pagesize = 4096, mmap_result = 0x7f0000000000, mprotect_result = 0\<rparr>"
  have h1: "open_brackets 0 ''+[>[-]<-]'' = 0" by simp
  have h2: "0 < pagesize ?h" by simp
  have h3: "39 + 20 * length ''+[>[-]<-]'' + pagesize ?h < 2 ^ 31" by simp
  have h4: "mmap_result ?h \<noteq> 0" by simp
  have h5: "mmap_result ?h \<noteq> MAP_FAILED" by (simp add: MAP_FAILED_def)
  have h6: "mprotect_result ?h = 0" by simp
  show ?thesis
    using balanced_program_builds [OF h1 h2 h3 h4 h5 h6, of "BrainfuckProgram_new 0"]
    by simp
qed

text \<open>
  C10. A closing bracket that the sequence scanner meets outside any loop (the text before
  it leaves no opening bracket waiting) appends nothing to the buffer and is no error: the
  build goes on as if the bracket were not there, and \<open>init\<close> on the source \<^verbatim>\<open>]\<close> does
  exactly what it does on the empty source, succeeding when the host calls succeed.
\<close>

theorem stray_close_bracket_is_skipped:
  "(open_brackets 0 pre = 0 \<longrightarrow>
      generate_sequence_code ex (pre @ CHR '']'' # post) code =
      generate_sequence_code ex (pre @ post) code) \<and>
   generate_sequence_code ex '']'' code = Inr code \<and>
   init h this '']'' = init h this [] \<and>
   (mmap_result h \<noteq> 0 \<and> mmap_result h \<noteq> MAP_FAILED \<and> mprotect_result h = 0 \<longrightarrow>
      returned (init h this '']'') = Returned True)"
proof -
  have a: "generate_sequence_code ex '']'' code = Inr code" for ex code
    by (simp add: generate_simple_code_def)
  have e: "generate_sequence_code ex [] code = Inr code" for ex code
    by simp
  have b: "init h this '']'' = init h this []"
    unfolding init_unfold a e by simp
  have c: "mmap_result h \<noteq> 0 \<and> mmap_result h \<noteq> MAP_FAILED \<and> mprotect_result h = 0 \<longrightarrow>
      returned (init h this '']'') = Returned True"
    unfolding init_unfold a by (simp add: Let_def)
  show ?thesis using stray_close_skipped_general a b c by blast
qed

theorem stray_close_bracket_is_skipped_witness:
  "open_brackets 0 ''+[-]>'' = 0 \<and>
   generate_sequence_code 25 (''+[-]>'' @ CHR '']'' # ''-'') [] =
     generate_sequence_code 25 (''+[-]>'' @ ''-'') [] \<and>
   returned (init \<lparr>pagesize = 4096, mmap_result = 0x7f0000000000, mprotect_result = 0\<rparr>
      (BrainfuckProgram_new 0) '']'') = Returned True"
proof -
  let ?h = "\<lparr>pagesize = 4096, mmap_result = 0x7f0000000000, mprotect_result = 0\<rparr>"
  have h1: "open_brackets 0 ''+[-]>'' = 0" by simp
  have h2: "mmap_result ?h \<noteq> 0 \<and> mmap_result ?h \<noteq> MAP_FAILED \<and> mprotect_result ?h = 0"
    by (simp add: MAP_FAILED_def)
  note t = stray_close_bracket_is_skipped [of "''+[-]>''" 25 "''-''" "[]" ?h "BrainfuckProgram_new 0"]
  have a: "generate_sequence_code 25 (''+[-]>'' @ CHR '']'' # ''-'') [] =
     generate_sequence_code 25 (''+[-]>'' @ ''-'') []"
    using t h1 by blast
  have c: "returned (init ?h (BrainfuckProgram_new 0) '']'') = Returned True"
    using t h2 by blast
  show ?thesis using h1 a c by (simp only: simp_thms)
qed

text \<open>
  C3, evaluated where it fails. When \<^verbatim>\<open>mmap\<close> fails it returns \<^verbatim>\<open>MAP_FAILED\<close>, which the test
  against \<^verbatim>\<open>NULL\<close> lets through: \<open>init\<close> prints no diagnostic and does not return, it faults
  in \<^verbatim>\<open>memmove\<close>. When \<^verbatim>\<open>mprotect\<close> fails, \<open>init\<close> returns failure with its own diagnostic,
  and the object keeps the pointer to the region that holds the copied code.
\<close>

theorem init_mapping_failure_not_detected:
  "returned (init \<lparr>pagesize = 4096, mmap_result = MAP_FAILED, mprotect_result = 0\<rparr>
      (BrainfuckProgram_new 0) ''+'') = Faulted \<and>
   diagnostics (init \<lparr>pagesize = 4096, mmap_result = MAP_FAILED, mprotect_result = 0\<rparr>
      (BrainfuckProgram_new 0) ''+'') = [] \<and>
   returned (init \<lparr>pagesize = 4096, mmap_result = 0x7f0000000000, mprotect_result = - 1\<rparr>
      (BrainfuckProgram_new 0) ''+'') = Returned False \<and>
   diagnostics (init \<lparr>pagesize = 4096, mmap_result = 0x7f0000000000, mprotect_result = - 1\<rparr>
      (BrainfuckProgram_new 0) ''+'') = [MprotectFailed] \<and>
   executable (program (init \<lparr>pagesize = 4096, mmap_result = 0x7f0000000000, mprotect_result = - 1\<rparr>
      (BrainfuckProgram_new 0) ''+'')) = 0x7f0000000000"
proof -
  have g: "generate_sequence_code 25 ''+'' code = Inr (code @ ADD)" for code
    by (simp add: generate_simple_code_def generate_add_code_def)
  show ?thesis
    unfolding init_unfold g by (simp add: Let_def MAP_FAILED_def)
qed

text \<open>
  C1, evaluated where it fails. The program \<^verbatim>\<open>,+\<close> is built and run with the default
  capabilities on an empty standard input, so that every read reports end of input by
  returning 0. After the call the code compares \<^verbatim>\<open>%rax\<close> with 0 and branches on "less",
  which 0 is not: the run does not leave at the read, it stores the 0 and goes on to the
  \<^verbatim>\<open>+\<close>, and returns with the cell at the tape pointer holding 1.
\<close>

theorem read_end_of_input_runs_on:
  "(case loaded_code (init \<lparr>pagesize = 4096, mmap_result = 0x7f0000000000, mprotect_result = 0\<rparr>
        (BrainfuckProgram_new 0) '',+'') of
      None \<Rightarrow> False
    | Some code \<Rightarrow>
        (case steps 26 default_caps code
            (entry default_caps (\<lambda>r. 0) 0x1000 (\<lambda>a. 0) \<lparr>stdin = [], stdout = [], putchar_ok = True\<rparr>) of
           Done m \<Rightarrow> mem m 0x1000 = 1
         | _ \<Rightarrow> False))"
  by code_simp

text \<open>
  C2, evaluated where it fails. The program \<^verbatim>\<open>,\<close> is built and run on the input byte
  \<^verbatim>\<open>0x41\<close> with the tape pointer at \<^verbatim>\<open>0x1000\<close> and the next cell holding 5. The store after
  the read is \<^verbatim>\<open>mov %rax,(%rbx)\<close>, eight bytes wide: the cell at the tape pointer receives
  the byte and the next cell is overwritten with 0.
\<close>

theorem read_store_overwrites_neighbours:
  "(case loaded_code (init \<lparr>pagesize = 4096, mmap_result = 0x7f0000000000, mprotect_result = 0\<rparr>
        (BrainfuckProgram_new 0) '','') of
      None \<Rightarrow> False
    | Some code \<Rightarrow>
        (case steps 23 default_caps code
            (entry default_caps (\<lambda>r. 0) 0x1000 ((\<lambda>a. 0)(0x1001 := 5))
               \<lparr>stdin = [0x41], stdout = [], putchar_ok = True\<rparr>) of
           Done m \<Rightarrow> mem m 0x1000 = 0x41 \<and> mem m 0x1001 = 0
         | _ \<Rightarrow> False))"
  by code_simp

text \<open>
  C9. Take any program that \<open>init\<close> has built and any run of it from its entry. Whenever
  the run is about to execute a call of the write capability (the \<^verbatim>\<open>callq *%r12\<close> of a
  \<^verbatim>\<open>.\<close>) and that call reports failure, the run executes the comparison of the result
  and the conditional jump, which leads to the shared exit at offset 25, and then the six
  instructions of the epilogue, and returns: nine instructions after the call the run is
  over, and neither the tape nor the host has changed since the call returned. So the run
  ends at the first \<^verbatim>\<open>.\<close> it reaches. The source is short enough for the buffer offsets to
  fit an \<^verbatim>\<open>int\<close>.
\<close>

theorem failing_write_leaves_by_exit:
  assumes "returned (init h this source) = Returned True"
    and "loaded_code (init h this source) = Some code"
    and "39 + 20 * length source < 2 ^ 31"
    and "steps n caps code (entry caps callers memory tape host_io) = Next m"
    and "decode code (pc m) = Some (CallReg R12, k)"
    and "do_write caps (io m) (regs m RDI) (ucast (regs m RSI)) = (res, io')"
    and "(ucast res :: byte) = 0"
  shows "\<exists>m1 m2 m3 m9.
     step caps code m = Next m1 \<and> decode code (pc m1) = Some (CmpImm RAX 1, 4) \<and>
     step caps code m1 = Next m2 \<and> (\<exists>d. decode code (pc m2) = Some (Jne d, 6)) \<and>
     step caps code m2 = Next m3 \<and> pc m3 = 25 \<and> mem m3 = mem m \<and> io m3 = io' \<and>
     steps 6 caps code m3 = Done m9 \<and> mem m9 = mem m \<and> io m9 = io' \<and>
     steps (n + 9) caps code (entry caps callers memory tape host_io) = Done m9"
proof -
  obtain code1 where gen: "generate_sequence_code 25 source
      (START @ [0xeb] @ [word_of_nat (length EXIT)] @ EXIT) = Inr code1"
    and code: "code = add_jmp_to_exit 25 code1"
    using loaded_code_init[OF assms(2)] by blast
  obtain S where L: "run_layout code S"
    using init_run_layout[OF gen assms(3)] code by blast
  have I: "run_inv caps S m"
    by (rule run_inv_steps[OF L entry_run_inv assms(4)])
  from write_call_exits[OF L I assms(5) assms(6) assms(7)]
  obtain m1 m2 m3 m9 where r:
    "step caps code m = Next m1" "decode code (pc m1) = Some (CmpImm RAX 1, 4)"
    "step caps code m1 = Next m2" "\<exists>d. decode code (pc m2) = Some (Jne d, 6)"
    "step caps code m2 = Next m3" "pc m3 = 25" "mem m3 = mem m" "io m3 = io'"
    "steps 6 caps code m3 = Done m9" "mem m9 = mem m" "io m9 = io'"
    by blast
  have "steps 9 caps code m = steps 6 caps code m3"
    using steps_Suc_Next[OF r(1), of 8] steps_Suc_Next[OF r(3), of 7] steps_Suc_Next[OF r(5), of 6]
    by (simp add: eval_nat_numeral)
  then have "steps (n + 9) caps code (entry caps callers memory tape host_io) = Done m9"
    using steps_add[OF assms(4), of 9] r(9) by simp
  then show ?thesis using r by blast
qed

theorem failing_write_leaves_by_exit_witness:
  "\<exists>code m m3 m9.
     loaded_code (init \<lparr>pagesize = 4096, mmap_result = 0x7f0000000000, mprotect_result = 0\<rparr>
        (BrainfuckProgram_new 0) ''.+'') = Some code \<and>
     steps 13 default_caps code
        (entry default_caps (\<lambda>r. 0) 0x1000 (\<lambda>a. 0) \<lparr>stdin = [], stdout = [], putchar_ok = False\<rparr>)
       = Next m \<and>
     decode code (pc m) = Some (CallReg R12, 3) \<and>
     steps 3 default_caps code m = Next m3 \<and> pc m3 = 25 \<and>
     steps 22 default_caps code
        (entry default_caps (\<lambda>r. 0) 0x1000 (\<lambda>a. 0) \<lparr>stdin = [], stdout = [], putchar_ok = False\<rparr>)
       = Done m9 \<and>
     mem m9 0x1000 = 0 \<and> stdout (io m9) = []"
proof -
  let ?h = "\<lparr>pagesize = 4096, mmap_result = 0x7f0000000000, mprotect_result = 0\<rparr>"
  let ?io = "\<lparr>stdin = [], stdout = [], putchar_ok = False\<rparr>"
  let ?e = "entry default_caps (\<lambda>r. 0) 0x1000 (\<lambda>a. 0) ?io"
  have b: "returned (init ?h (BrainfuckProgram_new 0) ''.+'') = Returned True"
    by code_simp
  have "case loaded_code (init ?h (BrainfuckProgram_new 0) ''.+'') of
      None \<Rightarrow> False
    | Some code \<Rightarrow>
        (case steps 13 default_caps code ?e of
           Next m \<Rightarrow> decode code (pc m) = Some (CallReg R12, 3) \<and>
             snd (do_write default_caps (io m) (regs m RDI) (ucast (regs m RSI))) = io m \<and>
             (ucast (fst (do_write default_caps (io m) (regs m RDI) (ucast (regs m RSI)))) :: byte) = 0 \<and>
             mem m 0x1000 = 0 \<and> stdout (io m) = []
         | _ \<Rightarrow> False)"
    by code_simp
  then obtain code m where c: "loaded_code (init ?h (BrainfuckProgram_new 0) ''.+'') = Some code"
    and m: "steps 13 default_caps code ?e = Next m"
    and d: "decode code (pc m) = Some (CallReg R12, 3)"
    and w: "snd (do_write default_caps (io m) (regs m RDI) (ucast (regs m RSI))) = io m"
      "(ucast (fst (do_write default_caps (io m) (regs m RDI) (ucast (regs m RSI)))) :: byte) = 0"
    and z: "mem m 0x1000 = 0" "stdout (io m) = []"
    by (auto split: option.splits step.splits)
  have s: "39 + 20 * length ''.+'' < (2 :: nat) ^ 31" by simp
  have w': "do_write default_caps (io m) (regs m RDI) (ucast (regs m RSI)) =
      (fst (do_write default_caps (io m) (regs m RDI) (ucast (regs m RSI))), io m)"
    using w(1) by (metis prod.collapse)
  from failing_write_leaves_by_exit [OF b c s m d w' w(2)]
  obtain m1 m2 m3 m9 where r:
    "step default_caps code m = Next m1" "step default_caps code m1 = Next m2"
    "step default_caps code m2 = Next m3" "pc m3 = 25"
    "mem m9 = mem m" "io m9 = io m" "steps (13 + 9) default_caps code ?e = Done m9"
    by blast
  have "steps 3 default_caps code m = Next m3"
    using r(1,2,3) by (simp add: eval_nat_numeral)
  then show ?thesis using c m d r z by (intro exI[of _ code] exI[of _ m] exI[of _ m3] exI[of _ m9]) simp
qed

end
